theory Spec2Isabelle
  imports Main "HOL-Library.AList" "HOL-Library.Multiset"
begin

section \<open>Data model (odecromancy/models.py, field\_value.py)\<close>

text \<open>
  Python objects are shared by reference.  Every \<open>ModelValue\<close> that survives the
  declaration pass is the object stored in \<open>definitions_map\<close> under its own name
  (\<open>_initialize_model\<close> takes parents from the map or registers a placeholder, and a
  re-declaration is merged in place), so a reference to a model is its name and is
  dereferenced through the registry.  Dictionaries are association lists in insertion
  order: \<open>map_of\<close> is \<open>d.get(k)\<close>, \<open>AList.update\<close> is \<open>d[k] = v\<close>.
\<close>

datatype error = TypeError | AttributeError | KeyError | IndexError | SyntaxError

text \<open>
  The syntax tree of the host language, as far as the walker looks at it.  The walker
  dispatches on the class of any node it is given, so all nodes are one type.
  \<open>Call func args keywords\<close> keeps of each keyword its value only (the walker never
  reads a keyword's name).  \<open>Lambda posonlyargs args defaults body\<close> keeps of the
  \<open>arguments\<close> node the parameter names and the default expressions, in the order in
  which \<open>generic_visit\<close> reaches them.  \<open>Comprehension target iter ifs\<close> is one
  \<open>for ... in ... if ...\<close> clause.  \<open>OtherNode\<close> is any node without a visitor method
  of its own, with its child nodes in field order.
\<close>

datatype const = Str string | Num int | NoneConst

datatype node =
    Name string
  | Constant const
  | Attribute node string
  | Call node "node list" "node list"
  | Subscript node node
  | Lambda "string list" "string list" "node list" node
  | ListComp node "node list"
  | SetComp node "node list"
  | GeneratorExp node "node list"
  | Comprehension node node "node list"
  | OtherNode "node list"

text \<open>A function node, as the merge and the report see it: its name and the expressions of
  its body.\<close>

datatype FunctionDef = FunctionDef string "node list"

text \<open>
  The \<open>name\<close> attribute of the three classes is \<open>fv_name\<close>, \<open>mv_name\<close> and
  \<open>mdl_name\<close>.  The attribute bag of a field has the keys \<open>relational\<close>,
  \<open>comodel_name\<close>, \<open>inverse_name\<close> and \<open>related\<close>; every read goes through
  \<open>attributes.get\<close>, which does not tell an absent key from \<open>None\<close>.
  \<open>MethodValue.dependencies\<close> is never written or read and is left out.  The parent and
  child dictionaries map a name to the model registered under it: their keys.
\<close>

record FieldValue =
  fv_name :: string
  attr_relational :: bool
  attr_comodel_name :: "string option"
  attr_inverse_name :: "string option"
  attr_related :: "string option"
  field_unused_percentage :: int
  field_definition_paths :: "string set"

record MethodValue =
  mv_name :: string
  function_definitions :: "FunctionDef list"
  method_unused_percentage :: int
  method_definition_paths :: "string set"

record ModelValue =
  mdl_name :: string
  inherited_models :: "string list"
  child_models :: "string list"
  model_fields :: "(string \<times> FieldValue) list"
  model_methods :: "(string \<times> MethodValue) list"

type_synonym registry = "(string \<times> ModelValue) list"

text \<open>Truthiness of an attribute read with \<open>attributes.get(key)\<close>: absent, \<open>None\<close> and
  the empty string are all false.\<close>

definition truthy :: "string option \<Rightarrow> bool" where
  "truthy v = (case v of None \<Rightarrow> False | Some s \<Rightarrow> s \<noteq> [])"

definition new_FieldValue :: "string \<Rightarrow> string set \<Rightarrow> FieldValue" where
  "new_FieldValue n paths =
     \<lparr>fv_name = n, attr_relational = False, attr_comodel_name = None,
      attr_inverse_name = None, attr_related = None,
      field_unused_percentage = 100, field_definition_paths = paths\<rparr>"

definition new_MethodValue :: "string \<Rightarrow> FunctionDef \<Rightarrow> string set \<Rightarrow> MethodValue" where
  "new_MethodValue n fd paths =
     \<lparr>mv_name = n, function_definitions = [fd],
      method_unused_percentage = 100, method_definition_paths = paths\<rparr>"

definition new_ModelValue :: "string \<Rightarrow> string list \<Rightarrow> ModelValue" where
  "new_ModelValue n inherited =
     \<lparr>mdl_name = n, inherited_models = inherited, child_models = [],
      model_fields = [], model_methods = []\<rparr>"

subsection \<open>reduce\_certainty\<close>

definition field_reduce_certainty :: "FieldValue \<Rightarrow> FieldValue" where
  "field_reduce_certainty f = f\<lparr>field_unused_percentage := field_unused_percentage f - 25\<rparr>"

definition method_reduce_certainty :: "MethodValue \<Rightarrow> MethodValue" where
  "method_reduce_certainty m = m\<lparr>method_unused_percentage := method_unused_percentage m - 25\<rparr>"

subsection \<open>Merging (\_\_ior\_\_)\<close>

definition FieldValue_ior :: "FieldValue \<Rightarrow> FieldValue \<Rightarrow> FieldValue" where
  "FieldValue_ior self other =
     self\<lparr>attr_relational := (if attr_relational other then True else attr_relational self),
          attr_comodel_name := (if truthy (attr_comodel_name other)
                                then attr_comodel_name other else attr_comodel_name self),
          attr_inverse_name := (if truthy (attr_inverse_name other)
                                then attr_inverse_name other else attr_inverse_name self),
          attr_related := (if truthy (attr_related other)
                           then attr_related other else attr_related self),
          field_definition_paths := field_definition_paths self \<union> field_definition_paths other\<rparr>"

definition MethodValue_ior :: "MethodValue \<Rightarrow> MethodValue \<Rightarrow> MethodValue" where
  "MethodValue_ior self other =
     self\<lparr>function_definitions := function_definitions self @ function_definitions other,
          method_unused_percentage :=
            min (method_unused_percentage self) (method_unused_percentage other),
          method_definition_paths :=
            method_definition_paths self \<union> method_definition_paths other\<rparr>"

text \<open>\<open>d.update(other)\<close> on the name-keyed parent and child dictionaries: a key already
  present keeps its place, a new key is appended.\<close>

definition names_update :: "string list \<Rightarrow> string list \<Rightarrow> string list" where
  "names_update self other = fold (\<lambda>n l. if n \<in> set l then l else l @ [n]) other self"

definition merge_field :: "string \<times> FieldValue \<Rightarrow> (string \<times> FieldValue) list
    \<Rightarrow> (string \<times> FieldValue) list" where
  "merge_field kv fs =
     (case map_of fs (fst kv) of
        Some mine \<Rightarrow> AList.update (fst kv) (FieldValue_ior mine (snd kv)) fs
      | None \<Rightarrow> AList.update (fst kv) (snd kv) fs)"

definition merge_method :: "string \<times> MethodValue \<Rightarrow> (string \<times> MethodValue) list
    \<Rightarrow> (string \<times> MethodValue) list" where
  "merge_method kv ms =
     (case map_of ms (fst kv) of
        Some mine \<Rightarrow> AList.update (fst kv) (MethodValue_ior mine (snd kv)) ms
      | None \<Rightarrow> AList.update (fst kv) (snd kv) ms)"

text \<open>\<open>ModelValue.__ior__\<close> of odecromancy/models.py.\<close>

definition ModelValue_ior :: "ModelValue \<Rightarrow> ModelValue \<Rightarrow> ModelValue" where
  "ModelValue_ior self other =
     self\<lparr>model_fields := fold merge_field (model_fields other) (model_fields self),
          model_methods := fold merge_method (model_methods other) (model_methods self),
          inherited_models := names_update (inherited_models self) (inherited_models other),
          child_models := names_update (child_models self) (child_models other)\<rparr>"

text \<open>
  The older field\_value.py.  Its \<open>FieldValue\<close> and \<open>MethodValue\<close> carry one definition
  path that their \<open>__ior__\<close> leave alone.  Its \<open>ModelValue.__ior__\<close> tests
  \<open>method_name in self.fields\<close> before \<open>self.methods[method_name] |= other_method\<close>:
  the read of \<open>self.methods[method_name]\<close> raises \<open>KeyError\<close> when the name is a field
  but not a method of \<open>self\<close>.
\<close>

definition legacy_FieldValue_ior :: "FieldValue \<Rightarrow> FieldValue \<Rightarrow> FieldValue" where
  "legacy_FieldValue_ior self other =
     self\<lparr>attr_relational := (if attr_relational other then True else attr_relational self),
          attr_comodel_name := (if truthy (attr_comodel_name other)
                                then attr_comodel_name other else attr_comodel_name self),
          attr_inverse_name := (if truthy (attr_inverse_name other)
                                then attr_inverse_name other else attr_inverse_name self),
          attr_related := (if truthy (attr_related other)
                           then attr_related other else attr_related self)\<rparr>"

definition legacy_MethodValue_ior :: "MethodValue \<Rightarrow> MethodValue \<Rightarrow> MethodValue" where
  "legacy_MethodValue_ior self other =
     self\<lparr>function_definitions := function_definitions self @ function_definitions other,
          method_unused_percentage :=
            min (method_unused_percentage self) (method_unused_percentage other)\<rparr>"

definition legacy_merge_field :: "string \<times> FieldValue \<Rightarrow> (string \<times> FieldValue) list
    \<Rightarrow> (string \<times> FieldValue) list" where
  "legacy_merge_field kv fs =
     (case map_of fs (fst kv) of
        Some mine \<Rightarrow> AList.update (fst kv) (legacy_FieldValue_ior mine (snd kv)) fs
      | None \<Rightarrow> AList.update (fst kv) (snd kv) fs)"

fun legacy_merge_methods :: "(string \<times> FieldValue) list \<Rightarrow> (string \<times> MethodValue) list
    \<Rightarrow> (string \<times> MethodValue) list \<Rightarrow> error + (string \<times> MethodValue) list" where
  "legacy_merge_methods self_fields [] ms = Inr ms"
| "legacy_merge_methods self_fields ((n, other_method) # rest) ms =
     (if map_of self_fields n \<noteq> None then
        (case map_of ms n of
           None \<Rightarrow> Inl KeyError
         | Some mine \<Rightarrow>
             legacy_merge_methods self_fields rest
               (AList.update n (legacy_MethodValue_ior mine other_method) ms))
      else legacy_merge_methods self_fields rest (AList.update n other_method ms))"

definition legacy_ModelValue_ior :: "ModelValue \<Rightarrow> ModelValue \<Rightarrow> error + ModelValue" where
  "legacy_ModelValue_ior self other =
     (let fs = fold legacy_merge_field (model_fields other) (model_fields self) in
      case legacy_merge_methods fs (model_methods other) (model_methods self) of
        Inl e \<Rightarrow> Inl e
      | Inr ms \<Rightarrow>
          Inr (self\<lparr>model_fields := fs, model_methods := ms,
                    inherited_models :=
                      names_update (inherited_models self) (inherited_models other),
                    child_models := names_update (child_models self) (child_models other)\<rparr>))"


section \<open>Usage recording (ModelValue.field\_used, method\_used)\<close>

definition field_scored :: "FieldValue \<Rightarrow> int \<Rightarrow> FieldValue" where
  "field_scored f confidence =
     f\<lparr>field_unused_percentage := max (field_unused_percentage f - confidence) 0\<rparr>"

definition method_scored :: "MethodValue \<Rightarrow> int \<Rightarrow> MethodValue" where
  "method_scored m confidence =
     m\<lparr>method_unused_percentage := max (method_unused_percentage m - confidence) 0\<rparr>"

text \<open>Writing a changed field or method object back into the model that owns it.\<close>

definition store_field :: "registry \<Rightarrow> string \<Rightarrow> ModelValue \<Rightarrow> string \<Rightarrow> FieldValue \<Rightarrow> registry" where
  "store_field reg mn m fn f =
     AList.update mn (m\<lparr>model_fields := AList.update fn f (model_fields m)\<rparr>) reg"

definition store_method :: "registry \<Rightarrow> string \<Rightarrow> ModelValue \<Rightarrow> string \<Rightarrow> MethodValue \<Rightarrow> registry" where
  "store_method reg mn m n v =
     AList.update mn (m\<lparr>model_methods := AList.update n v (model_methods m)\<rparr>) reg"

text \<open>
  The loop \<open>for name, inherited_model in self.inherited_models.items()\<close> of
  \<open>field_used\<close>.  A parent name without a registry entry is the Python state in which
  \<open>_fill_definitions_map\<close> stored \<open>definitions_map.get(name) = None\<close>: reading
  \<open>inherited_model.fields\<close> raises \<open>AttributeError\<close>.
\<close>

fun field_used_inherited :: "registry \<Rightarrow> string list \<Rightarrow> string \<Rightarrow> int \<Rightarrow> error + registry" where
  "field_used_inherited reg [] fn confidence = Inr reg"
| "field_used_inherited reg (p # ps) fn confidence =
     (case map_of reg p of
        None \<Rightarrow> Inl AttributeError
      | Some pm \<Rightarrow>
          (case map_of (model_fields pm) fn of
             None \<Rightarrow> field_used_inherited reg ps fn confidence
           | Some f \<Rightarrow>
               field_used_inherited (store_field reg p pm fn (field_scored f confidence))
                 ps fn confidence))"

definition field_used :: "registry \<Rightarrow> string \<Rightarrow> string \<Rightarrow> int \<Rightarrow> error + registry" where
  "field_used reg self fn confidence =
     (case map_of reg self of
        None \<Rightarrow> Inl AttributeError
      | Some m \<Rightarrow>
          (case map_of (model_fields m) fn of
             Some f \<Rightarrow> Inr (store_field reg self m fn (field_scored f confidence))
           | None \<Rightarrow> field_used_inherited reg (inherited_models m) fn confidence))"

fun field_used_multi :: "registry \<Rightarrow> string \<Rightarrow> string list \<Rightarrow> int \<Rightarrow> error + registry" where
  "field_used_multi reg self [] confidence = Inr reg"
| "field_used_multi reg self (f # fs) confidence =
     (case field_used reg self f confidence of
        Inl e \<Rightarrow> Inl e
      | Inr reg' \<Rightarrow> field_used_multi reg' self fs confidence)"

definition field_used_in_view :: "registry \<Rightarrow> string \<Rightarrow> string \<Rightarrow> error + registry" where
  "field_used_in_view reg self fn = field_used reg self fn 100"

section \<open>The report pass\<close>

type_synonym report_entry =
  "string \<times> (string \<times> string set) list \<times> (string \<times> string set) list"

definition unused_fields :: "ModelValue \<Rightarrow> (string \<times> string set) list" where
  "unused_fields m =
     map (\<lambda>f. (fv_name f, field_definition_paths f))
       (filter (\<lambda>f. field_unused_percentage f \<ge> 100) (map snd (model_fields m)))"

definition unused_methods :: "ModelValue \<Rightarrow> (string \<times> string set) list" where
  "unused_methods m =
     map (\<lambda>v. (mv_name v, method_definition_paths v))
       (filter (\<lambda>v. method_unused_percentage v \<ge> 100) (map snd (model_methods m)))"

text \<open>\<open>OdooAnalyzer.report\<close> of core.py: one entry per model that it logs, with the
  lists it prints under FIELDS and METHODS.\<close>

fun report :: "registry \<Rightarrow> report_entry list" where
  "report [] = []"
| "report ((name, m) # rest) =
     (if model_fields m = [] \<and> model_methods m = [] then report rest
      else if unused_fields m = [] \<or> unused_methods m = [] then report rest
      else (name, unused_fields m, unused_methods m) # report rest)"


section \<open>Method usage and downward propagation\<close>

text \<open>The loop over \<open>self.inherited_models.items()\<close> of \<open>method_used\<close>.\<close>

fun method_used_inherited :: "registry \<Rightarrow> string list \<Rightarrow> string \<Rightarrow> int \<Rightarrow> error + registry" where
  "method_used_inherited reg [] mn confidence = Inr reg"
| "method_used_inherited reg (p # ps) mn confidence =
     (case map_of reg p of
        None \<Rightarrow> Inl AttributeError
      | Some pm \<Rightarrow>
          (case map_of (model_methods pm) mn of
             None \<Rightarrow> method_used_inherited reg ps mn confidence
           | Some v \<Rightarrow>
               method_used_inherited (store_method reg p pm mn (method_scored v confidence))
                 ps mn confidence))"

text \<open>One round of the loop of \<open>method_used_child\<close>: the child's own method, when it
  declares one of that name, gets score 0.\<close>

definition zero_method :: "registry \<Rightarrow> string \<Rightarrow> ModelValue \<Rightarrow> string \<Rightarrow> registry" where
  "zero_method reg c child mn =
     (case map_of (model_methods child) mn of
        None \<Rightarrow> reg
      | Some v \<Rightarrow> store_method reg c child mn (v\<lparr>method_unused_percentage := 0\<rparr>))"

text \<open>
  \<open>method_used_child\<close> recurses through \<open>child_models\<close> with no visited set, so it
  need not return: the value \<open>None\<close> is a call that never returns.  The list argument
  is the rest of \<open>self.child_models.values()\<close> still to be visited.  A child name
  without a registry entry cannot be formed in Python (children are registered from the
  registry's own items); it is an \<open>AttributeError\<close> here.
\<close>

partial_function (option) method_used_child_loop ::
  "registry \<Rightarrow> string list \<Rightarrow> string \<Rightarrow> (error + registry) option" where
  "method_used_child_loop reg children mn =
     (case children of
        [] \<Rightarrow> Some (Inr reg)
      | c # cs \<Rightarrow>
          (case map_of reg c of
             None \<Rightarrow> Some (Inl AttributeError)
           | Some child \<Rightarrow>
               Option.bind
                 (method_used_child_loop (zero_method reg c child mn) (child_models child) mn)
                 (\<lambda>r. case r of
                        Inl e \<Rightarrow> Some (Inl e)
                      | Inr reg' \<Rightarrow> method_used_child_loop reg' cs mn)))"

definition method_used_child :: "registry \<Rightarrow> string \<Rightarrow> string \<Rightarrow> (error + registry) option" where
  "method_used_child reg self mn =
     (case map_of reg self of
        None \<Rightarrow> Some (Inl AttributeError)
      | Some m \<Rightarrow> method_used_child_loop reg (child_models m) mn)"

definition method_used :: "registry \<Rightarrow> string \<Rightarrow> string \<Rightarrow> int \<Rightarrow> (error + registry) option" where
  "method_used reg self mn confidence =
     (case map_of reg self of
        None \<Rightarrow> Some (Inl AttributeError)
      | Some m \<Rightarrow>
          (case map_of (model_methods m) mn of
             Some v \<Rightarrow>
               method_used_child (store_method reg self m mn (method_scored v confidence)) self mn
           | None \<Rightarrow> Some (method_used_inherited reg (inherited_models m) mn confidence)))"

section \<open>Name lookup through the parents\<close>

text \<open>
  \<open>_get_field_definition\<close> of core.py and \<open>_get_field_info\<close> of visitors.py are the
  same function: the model's own field, else the first hit of the recursive lookup over
  \<open>inherited_models.keys()\<close>, else \<open>None\<close>.  The list argument is the rest of the
  keys still to be tried; an unregistered name yields \<open>None\<close> and the loop goes on.
  The outer option is non-return.
\<close>

partial_function (option) get_field_definition_loop ::
  "registry \<Rightarrow> string list \<Rightarrow> string \<Rightarrow> FieldValue option option" where
  "get_field_definition_loop reg names fn =
     (case names of
        [] \<Rightarrow> Some None
      | n # ns \<Rightarrow>
          (case map_of reg n of
             None \<Rightarrow> get_field_definition_loop reg ns fn
           | Some m \<Rightarrow>
               (case map_of (model_fields m) fn of
                  Some f \<Rightarrow> Some (Some f)
                | None \<Rightarrow>
                    Option.bind (get_field_definition_loop reg (inherited_models m) fn)
                      (\<lambda>r. case r of
                             Some f \<Rightarrow> Some (Some f)
                           | None \<Rightarrow> get_field_definition_loop reg ns fn))))"

definition get_field_definition :: "registry \<Rightarrow> string \<Rightarrow> string \<Rightarrow> FieldValue option option" where
  "get_field_definition reg mn fn = get_field_definition_loop reg [mn] fn"

section \<open>Reading the registry\<close>

definition children_of :: "registry \<Rightarrow> string \<Rightarrow> string list" where
  "children_of reg n = (case map_of reg n of None \<Rightarrow> [] | Some m \<Rightarrow> child_models m)"

inductive transitive_child :: "registry \<Rightarrow> string \<Rightarrow> string \<Rightarrow> bool" for reg where
  child: "c \<in> set (children_of reg p) \<Longrightarrow> transitive_child reg p c"
| grandchild: "transitive_child reg p c \<Longrightarrow> d \<in> set (children_of reg c) \<Longrightarrow> transitive_child reg p d"

code_pred transitive_child .

definition method_score :: "registry \<Rightarrow> string \<Rightarrow> string \<Rightarrow> int option" where
  "method_score reg n mn =
     (case map_of reg n of
        None \<Rightarrow> None
      | Some m \<Rightarrow> map_option method_unused_percentage (map_of (model_methods m) mn))"

definition field_score :: "registry \<Rightarrow> string \<Rightarrow> string \<Rightarrow> int option" where
  "field_score reg n fn =
     (case map_of reg n of
        None \<Rightarrow> None
      | Some m \<Rightarrow> map_option field_unused_percentage (map_of (model_fields m) fn))"

text \<open>What the downward propagation of a usage of method \<open>mn\<close> keeps: the children
  under each name, which models declare \<open>mn\<close>, and every score of \<open>mn\<close> that is 0.\<close>

definition propagated :: "string \<Rightarrow> registry \<Rightarrow> registry \<Rightarrow> bool" where
  "propagated mn reg reg' \<longleftrightarrow>
     children_of reg' = children_of reg
     \<and> (\<forall>n. (method_score reg' n mn = None) = (method_score reg n mn = None))
     \<and> (\<forall>n. method_score reg n mn = Some 0 \<longrightarrow> method_score reg' n mn = Some 0)"

definition parents_of :: "registry \<Rightarrow> string \<Rightarrow> string list" where
  "parents_of reg n = (case map_of reg n of None \<Rightarrow> [] | Some m \<Rightarrow> inherited_models m)"

text \<open>The parent links descend along a rank: no model is its own ancestor.\<close>

definition parents_descend :: "(string \<Rightarrow> nat) \<Rightarrow> registry \<Rightarrow> bool" where
  "parents_descend rank reg \<longleftrightarrow> (\<forall>M p. p \<in> set (parents_of reg M) \<longrightarrow> rank p < rank M)"


text \<open>Two registries with the same names and the same children under each name.\<close>

definition same_shape :: "registry \<Rightarrow> registry \<Rightarrow> bool" where
  "same_shape reg reg' \<longleftrightarrow>
     children_of reg' = children_of reg \<and> dom (map_of reg') = dom (map_of reg)"

text \<open>From one registry to the next no score that is at least 0 rises or falls below 0.\<close>

definition scores_sink :: "registry \<Rightarrow> registry \<Rightarrow> bool" where
  "scores_sink reg reg' \<longleftrightarrow>
     (\<forall>X g s. field_score reg X g = Some s \<longrightarrow> 0 \<le> s \<longrightarrow>
        (\<exists>s'. field_score reg' X g = Some s' \<and> 0 \<le> s' \<and> s' \<le> s))
     \<and> (\<forall>X k s. method_score reg X k = Some s \<longrightarrow> 0 \<le> s \<longrightarrow>
        (\<exists>s'. method_score reg' X k = Some s' \<and> 0 \<le> s' \<and> s' \<le> s))"


section \<open>The usage collector (odecromancy/visitors.py)\<close>

text \<open>
  \<open>_get_method_info\<close> and \<open>_get_method_definition\<close>: as for fields, over the methods.
\<close>

partial_function (option) get_method_definition_loop ::
  "registry \<Rightarrow> string list \<Rightarrow> string \<Rightarrow> MethodValue option option" where
  "get_method_definition_loop reg names mn =
     (case names of
        [] \<Rightarrow> Some None
      | n # ns \<Rightarrow>
          (case map_of reg n of
             None \<Rightarrow> get_method_definition_loop reg ns mn
           | Some m \<Rightarrow>
               (case map_of (model_methods m) mn of
                  Some v \<Rightarrow> Some (Some v)
                | None \<Rightarrow>
                    Option.bind (get_method_definition_loop reg (inherited_models m) mn)
                      (\<lambda>r. case r of
                             Some v \<Rightarrow> Some (Some v)
                           | None \<Rightarrow> get_method_definition_loop reg ns mn))))"

definition get_method_definition :: "registry \<Rightarrow> string \<Rightarrow> string \<Rightarrow> MethodValue option option" where
  "get_method_definition reg model mn = get_method_definition_loop reg [model] mn"

definition get_field_info :: "registry \<Rightarrow> string \<Rightarrow> string \<Rightarrow> FieldValue option option" where
  "get_field_info reg model fn = get_field_definition reg model fn"

definition get_method_info :: "registry \<Rightarrow> string \<Rightarrow> string \<Rightarrow> MethodValue option option" where
  "get_method_info reg model mn = get_method_definition reg model mn"

text \<open>
  The collector's state.  \<open>used_fields_by_model\<close> and \<open>used_methods_by_model\<close> map a
  model to a set of names: a set of (model, name) pairs.  The binding stack is a Python
  list, its top is the last element.
\<close>

record collector =
  used_fields_by_model :: "(string \<times> string) set"
  used_methods_by_model :: "(string \<times> string) set"
  model_context_stack :: "(string \<times> string) list"

definition new_collector :: "string \<Rightarrow> (string \<times> string) list \<Rightarrow> collector" where
  "new_collector current_model_name default_context_stack =
     \<lparr>used_fields_by_model = {}, used_methods_by_model = {},
      model_context_stack = default_context_stack @ [(current_model_name, ''self'')]\<rparr>"

definition track_field_usage :: "collector \<Rightarrow> string \<Rightarrow> string \<Rightarrow> collector" where
  "track_field_usage c model fn =
     c\<lparr>used_fields_by_model := insert (model, fn) (used_fields_by_model c)\<rparr>"

definition track_method_usage :: "collector \<Rightarrow> string \<Rightarrow> string \<Rightarrow> collector" where
  "track_method_usage c model mn =
     c\<lparr>used_methods_by_model := insert (model, mn) (used_methods_by_model c)\<rparr>"

definition push :: "collector \<Rightarrow> string \<times> string \<Rightarrow> collector" where
  "push c b = c\<lparr>model_context_stack := model_context_stack c @ [b]\<rparr>"

text \<open>\<open>list.pop()\<close>; on an empty list Python raises \<open>IndexError\<close>.\<close>

definition pop :: "collector \<Rightarrow> error + collector" where
  "pop c = (if model_context_stack c = [] then Inl IndexError
            else Inr (c\<lparr>model_context_stack := butlast (model_context_stack c)\<rparr>))"

definition get_context_for_name :: "(string \<times> string) list \<Rightarrow> string \<Rightarrow> string option" where
  "get_context_for_name stack name =
     map_option fst (find (\<lambda>b. snd b = name) (rev stack))"

text \<open>The target model of a field, when \<open>attributes.get("comodel_name")\<close> is true.\<close>

definition comodel_of :: "FieldValue \<Rightarrow> string option" where
  "comodel_of f = (if truthy (attr_comodel_name f) then attr_comodel_name f else None)"

definition transient_markers :: "string set" where
  "transient_markers = {''mapped_call'', ''env_call''}"

text \<open>A computation that may raise and may fail to return, followed by another.\<close>

definition bind_result :: "(error + 'a) option \<Rightarrow> ('a \<Rightarrow> (error + 'b) option) \<Rightarrow> (error + 'b) option" where
  "bind_result r k = (case r of None \<Rightarrow> None | Some (Inl e) \<Rightarrow> Some (Inl e) | Some (Inr x) \<Rightarrow> k x)"

definition returns :: "'a \<Rightarrow> (error + 'a) option" where
  "returns x = Some (Inr x)"

text \<open>\<open>visit_Attribute\<close>, first branch: the object is a bare name.\<close>

definition attribute_on_name :: "registry \<Rightarrow> string \<Rightarrow> string \<Rightarrow> collector \<Rightarrow> (error + collector) option" where
  "attribute_on_name reg obj_name name c =
     (case get_context_for_name (model_context_stack c) obj_name of
        None \<Rightarrow> returns c
      | Some model_name \<Rightarrow>
          if model_name = [] then returns c
          else
            Option.bind (get_field_info reg model_name name) (\<lambda>field_value.
            Option.bind (get_method_info reg model_name name) (\<lambda>method_value.
              (case field_value of
                 Some fv \<Rightarrow>
                   (case comodel_of fv of
                      Some comodel \<Rightarrow>
                        returns (push (track_field_usage c model_name name)
                                   (comodel, obj_name @ ''.'' @ name))
                    | None \<Rightarrow> returns (track_field_usage c model_name name))
               | None \<Rightarrow>
                   (case method_value of
                      Some mv \<Rightarrow> returns (track_method_usage c model_name name)
                    | None \<Rightarrow> returns c)))))"

text \<open>\<open>visit_Attribute\<close>, second branch, after \<open>self.visit(node.value)\<close>.\<close>

definition attribute_after_value :: "registry \<Rightarrow> string \<Rightarrow> collector \<Rightarrow> (error + collector) option" where
  "attribute_after_value reg name c =
     (if length (model_context_stack c) > 1 then
        (let prev_model_name = fst (last (model_context_stack c));
             prev_obj_name = snd (last (model_context_stack c)) in
         Option.bind (get_field_info reg prev_model_name name) (\<lambda>field_value.
         Option.bind (get_method_info reg prev_model_name name) (\<lambda>method_value.
           (case field_value of
              Some fv \<Rightarrow>
                (let c1 = track_field_usage c prev_model_name name;
                     c2 = (case comodel_of fv of
                             Some comodel \<Rightarrow> push c1 (comodel, prev_obj_name @ ''.'' @ name)
                           | None \<Rightarrow> c1);
                     should_pop = (comodel_of fv = None
                        \<and> (take 5 prev_obj_name = ''self.'' \<or> CHR ''.'' \<in> set prev_obj_name)
                        \<and> prev_obj_name \<notin> transient_markers)
                 in if should_pop then Some (pop c2) else returns c2)
            | None \<Rightarrow>
                (case method_value of
                   Some mv \<Rightarrow> returns (track_method_usage c prev_model_name name)
                 | None \<Rightarrow> returns c)))))
      else returns c)"

text \<open>\<open>visit_Subscript\<close> before its \<open>generic_visit\<close>: \<open>self.env['model']\<close>.\<close>

definition subscript_step :: "node \<Rightarrow> node \<Rightarrow> collector \<Rightarrow> collector" where
  "subscript_step value slice c =
     (case value of
        Attribute (Name obj) attr \<Rightarrow>
          (case slice of
             Constant (Str s) \<Rightarrow>
               if attr = ''env'' \<and> obj = ''self'' then push c (s, ''env_call'') else c
           | _ \<Rightarrow> c)
      | _ \<Rightarrow> c)"

definition handle_orm_context_change ::
  "registry \<Rightarrow> node list \<Rightarrow> string \<Rightarrow> string \<Rightarrow> collector \<Rightarrow> (error + collector) option" where
  "handle_orm_context_change reg args model_name method_name c =
     (if method_name \<in> {''mapped'', ''filtered'', ''filtered_domain''} then
        (case args of
           Constant (Str field_name_str) # rest \<Rightarrow>
             (let c1 = track_field_usage c model_name field_name_str in
              if method_name = ''mapped'' then
                Option.bind (get_field_info reg model_name field_name_str) (\<lambda>field_value.
                  (case field_value of
                     Some fv \<Rightarrow>
                       (case comodel_of fv of
                          Some new_model \<Rightarrow> returns (push c1 (new_model, ''mapped_call''))
                        | None \<Rightarrow> returns c1)
                   | None \<Rightarrow> returns c1))
              else returns c1)
         | _ \<Rightarrow> returns c)
      else returns c)"

text \<open>The same helper in the older ast\_function\_visitor.py handles \<open>mapped\<close> only.\<close>

definition legacy_handle_orm_context_change ::
  "registry \<Rightarrow> node list \<Rightarrow> string \<Rightarrow> string \<Rightarrow> collector \<Rightarrow> (error + collector) option" where
  "legacy_handle_orm_context_change reg args model_name method_name c =
     (if method_name = ''mapped'' then
        (case args of
           Constant (Str field_name_str) # rest \<Rightarrow>
             (let c1 = track_field_usage c model_name field_name_str in
              Option.bind (get_field_info reg model_name field_name_str) (\<lambda>field_value.
                (case field_value of
                   Some fv \<Rightarrow>
                     (case comodel_of fv of
                        Some new_model \<Rightarrow> returns (push c1 (new_model, ''mapped_call''))
                      | None \<Rightarrow> returns c1)
                 | None \<Rightarrow> returns c1)))
         | _ \<Rightarrow> returns c)
      else returns c)"

text \<open>\<open>visit_Call\<close> on \<open>obj.method_name(args)\<close>, between \<open>self.visit(node.func.value)\<close>
  and \<open>self.generic_visit(node)\<close>.\<close>

definition call_step :: "registry \<Rightarrow> node list \<Rightarrow> string \<Rightarrow> collector \<Rightarrow> (error + collector) option" where
  "call_step reg args method_name c =
     (if model_context_stack c = [] then returns c
      else
        (let model_name = fst (last (model_context_stack c)) in
         Option.bind (get_method_info reg model_name method_name) (\<lambda>method_value.
           bind_result
             (let c1 = (if method_value \<noteq> None
                        then track_method_usage c model_name method_name else c)
              in if method_name \<in> {''filtered'', ''filtered_domain'', ''mapped'', ''search''}
                 then handle_orm_context_change reg args model_name method_name c1
                 else returns c1)
             (\<lambda>c2. if model_context_stack c2 \<noteq> []
                        \<and> snd (last (model_context_stack c2)) \<in> transient_markers
                    then Some (pop c2) else returns c2))))"

definition lambda_arg_name :: "string list \<Rightarrow> string list \<Rightarrow> string option" where
  "lambda_arg_name posonlyargs args =
     (case posonlyargs of
        a # rest \<Rightarrow> Some a
      | [] \<Rightarrow> (case args of a # rest \<Rightarrow> Some a | [] \<Rightarrow> None))"

text \<open>\<open>while len(self.model_context_stack) > original_stack_size: pop()\<close>.\<close>

definition unwind :: "nat \<Rightarrow> collector \<Rightarrow> collector" where
  "unwind original_stack_size c =
     c\<lparr>model_context_stack := take original_stack_size (model_context_stack c)\<rparr>"

text \<open>
  \<open>NodeVisitor.visit\<close> with the collector's \<open>visit_*\<close> methods; a node class without
  one gets \<open>generic_visit\<close>, which visits the child nodes in field order.
\<close>

function (sequential) visit :: "registry \<Rightarrow> node \<Rightarrow> collector \<Rightarrow> (error + collector) option"
  and visit_list :: "registry \<Rightarrow> node list \<Rightarrow> collector \<Rightarrow> (error + collector) option" where
  "visit reg (Name n) c = returns c"
| "visit reg (Constant k) c = returns c"
| "visit reg (Attribute value name) c =
     bind_result
       (case value of
          Name obj_name \<Rightarrow> attribute_on_name reg obj_name name c
        | Attribute v a \<Rightarrow> bind_result (visit reg value c) (attribute_after_value reg name)
        | Call f args kws \<Rightarrow> bind_result (visit reg value c) (attribute_after_value reg name)
        | _ \<Rightarrow> returns c)
       (\<lambda>c1. visit reg value c1)"
| "visit reg (Subscript value slice) c =
     bind_result (visit reg value (subscript_step value slice c)) (\<lambda>c1. visit reg slice c1)"
| "visit reg (Lambda posonlyargs args defaults body) c =
     (if model_context_stack c = [] then
        bind_result (visit_list reg defaults c) (\<lambda>c1. visit reg body c1)
      else
        (case lambda_arg_name posonlyargs args of
           Some a \<Rightarrow>
             if a \<noteq> [] then
               bind_result
                 (visit reg body (push c (fst (last (model_context_stack c)), a)))
                 (\<lambda>c1. Some (pop c1))
             else bind_result (visit_list reg defaults c) (\<lambda>c1. visit reg body c1)
         | None \<Rightarrow> bind_result (visit_list reg defaults c) (\<lambda>c1. visit reg body c1)))"
| "visit reg (Call func args keywords) c =
     bind_result
       (case func of
          Attribute value method_name \<Rightarrow>
            bind_result (visit reg value c) (call_step reg args method_name)
        | _ \<Rightarrow> returns c)
       (\<lambda>c1. bind_result (visit reg func c1)
          (\<lambda>c2. bind_result (visit_list reg args c2)
             (\<lambda>c3. visit_list reg keywords c3)))"
| "visit reg (ListComp elt generators) c =
     bind_result (visit reg elt c)
       (\<lambda>c1. bind_result (visit_list reg generators c1)
          (\<lambda>c2. returns (unwind (length (model_context_stack c)) c2)))"
| "visit reg (SetComp elt generators) c =
     bind_result (visit reg elt c)
       (\<lambda>c1. bind_result (visit_list reg generators c1)
          (\<lambda>c2. returns (unwind (length (model_context_stack c)) c2)))"
| "visit reg (GeneratorExp elt generators) c =
     bind_result (visit reg elt c)
       (\<lambda>c1. bind_result (visit_list reg generators c1)
          (\<lambda>c2. returns (unwind (length (model_context_stack c)) c2)))"
| "visit reg (Comprehension target iter ifs) c =
     bind_result (visit reg iter c)
       (\<lambda>c1. if model_context_stack c1 = [] then returns c1
              else (case target of
                      Name target_name \<Rightarrow>
                        visit_list reg ifs
                          (push c1 (fst (last (model_context_stack c1)), target_name))
                    | _ \<Rightarrow> returns c1))"
| "visit reg (OtherNode children) c = visit_list reg children c"
| "visit_list reg [] c = returns c"
| "visit_list reg (n # ns) c = bind_result (visit reg n c) (\<lambda>c1. visit_list reg ns c1)"
  by pat_completeness auto
termination
  by (relation "measure (\<lambda>x. case x of
        Inl (reg, n, c) \<Rightarrow> 2 * size n + 1
      | Inr (reg, ns, c) \<Rightarrow> 2 * size_list size ns + 2)") auto

text \<open>The collector only ever adds to its two result sets.\<close>

definition grows :: "collector \<Rightarrow> collector \<Rightarrow> bool" where
  "grows c c' \<longleftrightarrow> used_fields_by_model c \<subseteq> used_fields_by_model c'
                \<and> used_methods_by_model c \<subseteq> used_methods_by_model c'"

text \<open>An expression in which the walker meets no lambda.\<close>

fun lambda_free :: "node \<Rightarrow> bool" where
  "lambda_free (Lambda posonlyargs args defaults body) = False"
| "lambda_free (Attribute v name) = lambda_free v"
| "lambda_free (Call func args kws) =
     (lambda_free func \<and> list_all lambda_free args \<and> list_all lambda_free kws)"
| "lambda_free (Subscript v slice) = (lambda_free v \<and> lambda_free slice)"
| "lambda_free (ListComp elt generators) = (lambda_free elt \<and> list_all lambda_free generators)"
| "lambda_free (SetComp elt generators) = (lambda_free elt \<and> list_all lambda_free generators)"
| "lambda_free (GeneratorExp elt generators) = (lambda_free elt \<and> list_all lambda_free generators)"
| "lambda_free (Comprehension target iter ifs) = (lambda_free iter \<and> list_all lambda_free ifs)"
| "lambda_free (OtherNode children) = list_all lambda_free children"
| "lambda_free (Name n) = True"
| "lambda_free (Constant k) = True"


section \<open>The declaration pass (core.py, \_initialize\_definitions\_map)\<close>

text \<open>
  \<open>definitions_map\<close> is an ordinary dictionary (\<open>Dict[str, Any]\<close> in visitors.py), and
  \<open>|=\<close> dispatches on the class of its left operand.  \<open>MethodValue.__ior__\<close> and
  \<open>ModelValue.__ior__\<close> raise \<open>TypeError\<close> on an operand of another class;
  \<open>FieldValue.__ior__\<close> reads \<open>other.attributes\<close>, which only a \<open>FieldValue\<close> has.
\<close>

datatype pyobj = FieldObj FieldValue | MethodObj MethodValue | ModelObj ModelValue

definition py_ior :: "pyobj \<Rightarrow> pyobj \<Rightarrow> error + pyobj" where
  "py_ior a b =
     (case a of
        ModelObj self \<Rightarrow>
          (case b of ModelObj other \<Rightarrow> Inr (ModelObj (ModelValue_ior self other))
                   | _ \<Rightarrow> Inl TypeError)
      | MethodObj self \<Rightarrow>
          (case b of MethodObj other \<Rightarrow> Inr (MethodObj (MethodValue_ior self other))
                   | _ \<Rightarrow> Inl TypeError)
      | FieldObj self \<Rightarrow>
          (case b of FieldObj other \<Rightarrow> Inr (FieldObj (FieldValue_ior self other))
                   | _ \<Rightarrow> Inl AttributeError))"

type_synonym definitions_map = "(string \<times> pyobj) list"

text \<open>
  A class definition as the declaration pass reads it: the string literal assigned to
  \<open>_name\<close> (absent or not a literal: \<open>None\<close>), the value assigned to \<open>_inherit\<close>,
  the literal keys of \<open>_inherits\<close>, and the fields and methods that \<open>_find_fields\<close> and
  \<open>_find_methods\<close> extract from the class body.  List elements are string literals.
\<close>

datatype inherit_node = NoInherit | InheritConstant string | InheritList "string list" | InheritOther

record class_def =
  cd_name :: "string option"
  cd_inherit :: inherit_node
  cd_inherits :: "string list"
  cd_fields :: "FieldValue list"
  cd_methods :: "MethodValue list"

datatype source_file = Unparseable | Parsed "class_def list"

text \<open>
  \<open>_initialize_model\<close> collects the parent names in a set and iterates it, and
  \<open>_find_fields\<close> and \<open>_find_methods\<close> return sets that the pass iterates.  The
  order in which Python iterates a set is not fixed by its elements (the hash of a
  string changes from one process to the next), so the order is a parameter of the
  pass: \<open>names_order it ns\<close> enumerates the set built by adding the names \<open>ns\<close>, and
  \<open>fields_order it fs\<close> the set built by adding the objects \<open>fs\<close>, each of which is
  an element of its own (the classes define no \<open>__eq__\<close>).
\<close>

record iteration =
  names_order :: "string list \<Rightarrow> string list"
  fields_order :: "FieldValue list \<Rightarrow> FieldValue list"
  methods_order :: "MethodValue list \<Rightarrow> MethodValue list"

definition iterates :: "iteration \<Rightarrow> bool" where
  "iterates it \<longleftrightarrow>
     (\<forall>ns. distinct (names_order it ns) \<and> set (names_order it ns) = set ns)
     \<and> (\<forall>fs. mset (fields_order it fs) = mset fs)
     \<and> (\<forall>ms. mset (methods_order it ms) = mset ms)"

text \<open>One order among them: the order in which the elements were added.\<close>

definition insertion_order :: iteration where
  "insertion_order = \<lparr>names_order = remdups, fields_order = id, methods_order = id\<rparr>"

text \<open>The loop "Resolve inherited models from existing map" of \<open>_initialize_model\<close>, over
  the names in the order of the iteration.\<close>

fun resolve_inherited :: "definitions_map \<Rightarrow> string \<Rightarrow> string list \<Rightarrow> string list
    \<Rightarrow> definitions_map \<times> string list" where
  "resolve_inherited dm mname [] inherited = (dm, inherited)"
| "resolve_inherited dm mname (n # ns) inherited =
     (if n = mname then resolve_inherited dm mname ns inherited
      else if map_of dm n \<noteq> None then resolve_inherited dm mname ns (inherited @ [n])
      else resolve_inherited (AList.update n (ModelObj (new_ModelValue n [])) dm) mname ns
             (inherited @ [n]))"

text \<open>The names that "Collect inherited names" adds to the set, in the order of the
  \<open>add\<close> calls.\<close>

definition inherited_model_names :: "class_def \<Rightarrow> string list" where
  "inherited_model_names cd =
     (case cd_inherit cd of
        InheritConstant n \<Rightarrow> [n]
      | InheritList ns \<Rightarrow> ns
      | _ \<Rightarrow> []) @ cd_inherits cd"

definition initialize_model :: "iteration \<Rightarrow> definitions_map \<Rightarrow> class_def
    \<Rightarrow> definitions_map \<times> ModelValue option" where
  "initialize_model it dm cd =
     (case cd_name cd of
        Some mname \<Rightarrow>
          (case resolve_inherited dm mname (names_order it (inherited_model_names cd)) [] of
             (dm', inherited) \<Rightarrow> (dm', Some (new_ModelValue mname inherited)))
      | None \<Rightarrow>
          (case cd_inherit cd of
             InheritConstant n \<Rightarrow> (dm, Some (new_ModelValue n []))
           | InheritList [n] \<Rightarrow> (dm, Some (new_ModelValue n []))
           | _ \<Rightarrow> (dm, None)))"

text \<open>\<open>{f.name: f for f in fields}\<close> over the set in the order of the iteration.\<close>

definition fields_by_name :: "iteration \<Rightarrow> FieldValue list \<Rightarrow> (string \<times> FieldValue) list" where
  "fields_by_name it fs = fold (\<lambda>f d. AList.update (fv_name f) f d) (fields_order it fs) []"

definition methods_by_name :: "iteration \<Rightarrow> MethodValue list \<Rightarrow> (string \<times> MethodValue) list" where
  "methods_by_name it ms = fold (\<lambda>m d. AList.update (mv_name m) m d) (methods_order it ms) []"

text \<open>The body of the \<open>try\<close>: the classes of one file in order.  When a class raises, the
  result is the error and the map as it is at that moment.\<close>

fun declare_classes :: "iteration \<Rightarrow> definitions_map \<Rightarrow> class_def list
    \<Rightarrow> error \<times> definitions_map + definitions_map" where
  "declare_classes it dm [] = Inr dm"
| "declare_classes it dm (cd # rest) =
     (case initialize_model it dm cd of
        (dm1, None) \<Rightarrow> declare_classes it dm1 rest
      | (dm1, Some m) \<Rightarrow>
          (let model = m\<lparr>model_fields := fields_by_name it (cd_fields cd),
                         model_methods := methods_by_name it (cd_methods cd)\<rparr>
           in case map_of dm1 (mdl_name model) of
                Some existing \<Rightarrow>
                  (case py_ior existing (ModelObj model) of
                     Inl e \<Rightarrow> Inl (e, dm1)
                   | Inr merged \<Rightarrow>
                       declare_classes it (AList.update (mdl_name model) merged dm1) rest)
              | None \<Rightarrow>
                  declare_classes it (AList.update (mdl_name model) (ModelObj model) dm1) rest))"

record analyzer =
  definitions_map :: definitions_map
  error_log :: "(string \<times> error) list"

text \<open>
  \<open>_initialize_definitions_map\<close>: the \<open>try\<close> body under \<open>except Exception\<close>, which
  logs the error and returns.  \<open>Inl\<close> would be an exception leaving the function.
\<close>

definition initialize_definitions_map :: "iteration \<Rightarrow> analyzer \<Rightarrow> string \<times> source_file
    \<Rightarrow> error + analyzer" where
  "initialize_definitions_map it a file =
     (case snd file of
        Unparseable \<Rightarrow> Inr (a\<lparr>error_log := error_log a @ [(fst file, SyntaxError)]\<rparr>)
      | Parsed classes \<Rightarrow>
          (case declare_classes it (definitions_map a) classes of
             Inl (e, dm) \<Rightarrow>
               Inr (a\<lparr>definitions_map := dm, error_log := error_log a @ [(fst file, e)]\<rparr>)
           | Inr dm \<Rightarrow> Inr (a\<lparr>definitions_map := dm\<rparr>)))"

text \<open>Step 1 of \<open>analyze\<close>: every file in turn; an exception leaving one call ends the
  run.\<close>

fun declaration_pass :: "iteration \<Rightarrow> analyzer \<Rightarrow> (string \<times> source_file) list
    \<Rightarrow> error + analyzer" where
  "declaration_pass it a [] = Inr a"
| "declaration_pass it a (file # files) =
     (case initialize_definitions_map it a file of
        Inl e \<Rightarrow> Inl e
      | Inr a' \<Rightarrow> declaration_pass it a' files)"

text \<open>The later passes read every entry as a model.\<close>

fun as_registry :: "definitions_map \<Rightarrow> registry option" where
  "as_registry [] = Some []"
| "as_registry ((n, ModelObj m) # rest) = map_option ((#) (n, m)) (as_registry rest)"
| "as_registry ((n, other) # rest) = None"

text \<open>The map as the declaration pass builds it holds models only.\<close>

definition models_only :: "definitions_map \<Rightarrow> bool" where
  "models_only dm \<longleftrightarrow> as_registry dm \<noteq> None"

section \<open>Relationship resolution (core.py, \_fill\_definitions\_map)\<close>

text \<open>
  Every model is registered under its own name, so \<open>current_model.name\<close> is the key of
  the current model.  Step 1 stores \<open>definitions_map.get(name)\<close> for every parent name,
  which in the name-keyed registry changes nothing, and then registers each model as a
  child of each parent that is registered.
\<close>

definition add_child :: "registry \<Rightarrow> string \<Rightarrow> string \<Rightarrow> registry" where
  "add_child reg parent child =
     (case map_of reg parent of
        None \<Rightarrow> reg
      | Some pm \<Rightarrow>
          AList.update parent
            (pm\<lparr>child_models := (if child \<in> set (child_models pm) then child_models pm
                                  else child_models pm @ [child])\<rparr>) reg)"

definition link_children :: "registry \<Rightarrow> registry" where
  "link_children reg =
     fold (\<lambda>entry r. fold (\<lambda>parent r'. add_child r' parent (fst entry))
                        (inherited_models (snd entry)) r) reg reg"

text \<open>\<open>str.split(".")\<close>.\<close>

fun split_dot :: "string \<Rightarrow> string list" where
  "split_dot [] = [[]]"
| "split_dot (ch # rest) =
     (if ch = CHR ''.'' then [] # split_dot rest
      else (case split_dot rest of
              [] \<Rightarrow> [[ch]]
            | w # ws \<Rightarrow> (ch # w) # ws))"

definition related_of :: "FieldValue \<Rightarrow> string option" where
  "related_of f = (if truthy (attr_related f) then attr_related f else None)"

text \<open>\<open>self.definitions_map.get(name)\<close> as a reference: the name when it is registered.\<close>

definition registered :: "registry \<Rightarrow> string option \<Rightarrow> string option" where
  "registered reg name =
     (case name of
        None \<Rightarrow> None
      | Some n \<Rightarrow> (if map_of reg n \<noteq> None then Some n else None))"

text \<open>
  \<open>_get_comodel_from_related_path\<close>: the loop over the parts of the path, with the
  current model and the parts still to walk.  It calls itself on the related path of a
  segment that has no target model, so it need not return.
\<close>

partial_function (option) related_path_walk ::
  "registry \<Rightarrow> string option \<Rightarrow> string list \<Rightarrow> (error + registry \<times> string option) option" where
  "related_path_walk reg current_model parts =
     (case parts of
        [] \<Rightarrow> Some (Inr (reg, current_model))
      | part # rest \<Rightarrow>
          (case current_model of
             None \<Rightarrow> Some (Inr (reg, None))
           | Some current \<Rightarrow>
               (case field_used reg current part 100 of
                  Inl e \<Rightarrow> Some (Inl e)
                | Inr reg1 \<Rightarrow>
                    Option.bind (get_field_definition reg1 current part) (\<lambda>field_def.
                      (case field_def of
                         None \<Rightarrow> Some (Inr (reg1, None))
                       | Some fd \<Rightarrow>
                           (case comodel_of fd of
                              Some comodel \<Rightarrow>
                                related_path_walk reg1 (registered reg1 (Some comodel)) rest
                            | None \<Rightarrow>
                                (case related_of fd of
                                   Some path \<Rightarrow>
                                     Option.bind
                                       (related_path_walk reg1 (Some current) (split_dot path))
                                       (\<lambda>r. case r of
                                              Inl e \<Rightarrow> Some (Inl e)
                                            | Inr (reg2, sub_comodel_name) \<Rightarrow>
                                                related_path_walk reg2
                                                  (registered reg2 sub_comodel_name) rest)
                                 | None \<Rightarrow> Some (Inr (reg1, None)))))))))"

definition get_comodel_from_related_path ::
  "registry \<Rightarrow> string \<Rightarrow> string \<Rightarrow> (error + registry \<times> string option) option" where
  "get_comodel_from_related_path reg model related_path =
     related_path_walk reg (Some model) (split_dot related_path)"

text \<open>The loop over the parents of "Fix relational fields inheriting comodel"; \<open>parent.name\<close>
  on a parent that step 1 left as \<open>None\<close> raises.\<close>

fun parent_comodel :: "registry \<Rightarrow> string list \<Rightarrow> string \<Rightarrow> (error + string option) option" where
  "parent_comodel reg [] fn = returns None"
| "parent_comodel reg (p # ps) fn =
     (case map_of reg p of
        None \<Rightarrow> Some (Inl AttributeError)
      | Some pm \<Rightarrow>
          Option.bind (get_field_definition reg p fn) (\<lambda>parent_field.
            (case parent_field of
               None \<Rightarrow> parent_comodel reg ps fn
             | Some pf \<Rightarrow>
                 (case comodel_of pf of
                    Some comodel \<Rightarrow> returns (Some comodel)
                  | None \<Rightarrow> parent_comodel reg ps fn))))"

definition set_comodel :: "registry \<Rightarrow> string \<Rightarrow> string \<Rightarrow> string option \<Rightarrow> registry" where
  "set_comodel reg model fn v =
     (case map_of reg model of
        None \<Rightarrow> reg
      | Some m \<Rightarrow>
          (case map_of (model_fields m) fn of
             None \<Rightarrow> reg
           | Some f \<Rightarrow> store_field reg model m fn (f\<lparr>attr_comodel_name := v\<rparr>)))"

text \<open>The body of the loop over the fields of a model in step 2, for the field \<open>fn\<close> of
  \<open>model\<close>.\<close>

definition inherit_comodel :: "registry \<Rightarrow> string \<Rightarrow> string \<Rightarrow> (error + registry) option" where
  "inherit_comodel reg model fn =
     (case map_of reg model of
        None \<Rightarrow> returns reg
      | Some m \<Rightarrow>
          (case map_of (model_fields m) fn of
             None \<Rightarrow> returns reg
           | Some f \<Rightarrow>
               if attr_relational f \<and> comodel_of f = None then
                 bind_result (parent_comodel reg (inherited_models m) fn)
                   (\<lambda>found. case found of
                              None \<Rightarrow> returns reg
                            | Some comodel \<Rightarrow> returns (set_comodel reg model fn (Some comodel)))
               else returns reg))"

definition resolve_related :: "registry \<Rightarrow> string \<Rightarrow> string \<Rightarrow> (error + registry) option" where
  "resolve_related reg model fn =
     (case map_of reg model of
        None \<Rightarrow> returns reg
      | Some m \<Rightarrow>
          (case map_of (model_fields m) fn of
             None \<Rightarrow> returns reg
           | Some f \<Rightarrow>
               (case related_of f of
                  Some path \<Rightarrow>
                    if comodel_of f = None then
                      bind_result (get_comodel_from_related_path reg model path)
                        (\<lambda>r. returns (set_comodel (fst r) model fn (snd r)))
                    else returns reg
                | None \<Rightarrow> returns reg)))"

fun process_fields :: "registry \<Rightarrow> (string \<times> string) list \<Rightarrow> (error + registry) option" where
  "process_fields reg [] = returns reg"
| "process_fields reg (mf # rest) =
     bind_result (inherit_comodel reg (fst mf) (snd mf))
       (\<lambda>reg1. bind_result (resolve_related reg1 (fst mf) (snd mf))
          (\<lambda>reg2. process_fields reg2 rest))"

definition all_fields :: "registry \<Rightarrow> (string \<times> string) list" where
  "all_fields reg = concat (map (\<lambda>entry. map (\<lambda>kv. (fst entry, fst kv)) (model_fields (snd entry))) reg)"

definition fill_definitions_map :: "registry \<Rightarrow> (error + registry) option" where
  "fill_definitions_map reg =
     (let linked = link_children reg in process_fields linked (all_fields linked))"


section \<open>Concrete inputs\<close>

definition only_field_model :: ModelValue where
  "only_field_model =
     (new_ModelValue ''sale.note'' [])
       \<lparr>model_fields := [(''memo'', new_FieldValue ''memo'' {''note.py:5''})]\<rparr>"

definition go_first :: MethodValue where
  "go_first = new_MethodValue ''go'' (FunctionDef ''go'' [Name ''first'']) {''a.py:7''}"

definition go_second :: MethodValue where
  "go_second = new_MethodValue ''go'' (FunctionDef ''go'' [Name ''second'']) {''b.py:9''}"

definition declared_first :: ModelValue where
  "declared_first = (new_ModelValue ''sale.note'' [])\<lparr>model_methods := [(''go'', go_first)]\<rparr>"

definition declared_second :: ModelValue where
  "declared_second = (new_ModelValue ''sale.note'' [])\<lparr>model_methods := [(''go'', go_second)]\<rparr>"

text \<open>Two models that name each other as parent, after the children have been linked.\<close>

definition cyclic_registry :: registry where
  "cyclic_registry =
     [(''b'', (new_ModelValue ''b'' [''a''])\<lparr>child_models := [''a'']\<rparr>),
      (''a'', (new_ModelValue ''a'' [''b''])\<lparr>child_models := [''b'']\<rparr>)]"

text \<open>Three generations: \<open>leaf\<close> extends \<open>mid\<close> extends \<open>base\<close>.\<close>

definition priority_field :: FieldValue where
  "priority_field = new_FieldValue ''priority'' {''base.py:4''}"

definition family :: registry where
  "family =
     [(''base'', (new_ModelValue ''base'' [])
         \<lparr>child_models := [''mid''],
          model_fields := [(''priority'', priority_field)],
          model_methods := [(''go'', go_first)]\<rparr>),
      (''mid'', (new_ModelValue ''mid'' [''base''])\<lparr>child_models := [''leaf'']\<rparr>),
      (''leaf'', (new_ModelValue ''leaf'' [''mid''])\<lparr>model_methods := [(''go'', go_second)]\<rparr>)]"

definition generation :: "string \<Rightarrow> nat" where
  "generation n = (if n = ''base'' then 2 else if n = ''mid'' then 1 else 0)"

definition family_go_used :: registry where
  "family_go_used =
     [(''base'', (new_ModelValue ''base'' [])
         \<lparr>child_models := [''mid''],
          model_fields := [(''priority'', priority_field)],
          model_methods := [(''go'', go_first\<lparr>method_unused_percentage := 75\<rparr>)]\<rparr>),
      (''mid'', (new_ModelValue ''mid'' [''base''])\<lparr>child_models := [''leaf'']\<rparr>),
      (''leaf'', (new_ModelValue ''leaf'' [''mid''])
         \<lparr>model_methods := [(''go'', go_second\<lparr>method_unused_percentage := 0\<rparr>)]\<rparr>)]"

definition family_priority_used :: registry where
  "family_priority_used =
     [(''base'', (new_ModelValue ''base'' [])
         \<lparr>child_models := [''mid''],
          model_fields := [(''priority'', priority_field\<lparr>field_unused_percentage := 0\<rparr>)],
          model_methods := [(''go'', go_first)]\<rparr>),
      (''mid'', (new_ModelValue ''mid'' [''base''])\<lparr>child_models := [''leaf'']\<rparr>),
      (''leaf'', (new_ModelValue ''leaf'' [''mid''])\<lparr>model_methods := [(''go'', go_second)]\<rparr>)]"

text \<open>An order with a partner and lines, and a collector started on the order.\<close>

definition partner_id_field :: FieldValue where
  "partner_id_field = (new_FieldValue ''partner_id'' {''order.py:5''})
     \<lparr>attr_relational := True, attr_comodel_name := Some ''res.partner''\<rparr>"

definition line_ids_field :: FieldValue where
  "line_ids_field = (new_FieldValue ''line_ids'' {''order.py:6''})
     \<lparr>attr_relational := True, attr_comodel_name := Some ''sale.order.line'',
      attr_inverse_name := Some ''order_id''\<rparr>"

definition sales :: registry where
  "sales =
     [(''sale.order'', (new_ModelValue ''sale.order'' [])
         \<lparr>model_fields := [(''partner_id'', partner_id_field), (''line_ids'', line_ids_field)]\<rparr>),
      (''res.partner'', (new_ModelValue ''res.partner'' [])
         \<lparr>model_fields := [(''email'', new_FieldValue ''email'' {''partner.py:3''})]\<rparr>),
      (''sale.order.line'', (new_ModelValue ''sale.order.line'' [])
         \<lparr>model_fields := [(''amount'', new_FieldValue ''amount'' {''line.py:3''})]\<rparr>)]"

definition start :: collector where
  "start = new_collector ''sale.order'' []"

definition mapped_amount :: node where
  "mapped_amount =
     Call (Attribute (Attribute (Name ''self'') ''line_ids'') ''mapped'')
       [Constant (Str ''amount'')] []"

definition mapped_amount_result :: collector where
  "mapped_amount_result =
     \<lparr>used_fields_by_model = {(''sale.order'', ''line_ids''), (''sale.order.line'', ''amount'')},
      used_methods_by_model = {},
      model_context_stack =
        [(''sale.order'', ''self''), (''sale.order.line'', ''self.line_ids''),
         (''sale.order.line'', ''self.line_ids''), (''sale.order.line'', ''self.line_ids'')]\<rparr>"

text \<open>Source files: the two classes behind \<open>cyclic_registry\<close>; an order whose
  \<open>partner_email\<close> is related to \<open>partner_id.email\<close>.\<close>

definition new_class :: "string option \<Rightarrow> inherit_node \<Rightarrow> FieldValue list \<Rightarrow> MethodValue list \<Rightarrow> class_def" where
  "new_class n inh fs ms =
     \<lparr>cd_name = n, cd_inherit = inh, cd_inherits = [], cd_fields = fs, cd_methods = ms\<rparr>"

definition new_analyzer :: analyzer where
  "new_analyzer = \<lparr>definitions_map = [], error_log = []\<rparr>"

definition cyclic_files :: "(string \<times> source_file) list" where
  "cyclic_files =
     [(''a.py'', Parsed [new_class (Some ''a'') (InheritConstant ''b'') [] []]),
      (''b.py'', Parsed [new_class (Some ''b'') (InheritConstant ''a'') [] []])]"

definition partner_email_field :: FieldValue where
  "partner_email_field = (new_FieldValue ''partner_email'' {''order.py:7''})
     \<lparr>attr_relational := True, attr_related := Some ''partner_id.email''\<rparr>"

definition email_field :: FieldValue where
  "email_field = new_FieldValue ''email'' {''partner.py:3''}"

definition order_files :: "(string \<times> source_file) list" where
  "order_files =
     [(''order.py'', Parsed [new_class (Some ''sale.order'') NoInherit
                               [partner_id_field, partner_email_field] []]),
      (''partner.py'', Parsed [new_class (Some ''res.partner'') NoInherit [email_field] []])]"

definition orders_declared :: registry where
  "orders_declared =
     [(''sale.order'', (new_ModelValue ''sale.order'' [])
         \<lparr>model_fields := [(''partner_id'', partner_id_field),
                           (''partner_email'', partner_email_field)]\<rparr>),
      (''res.partner'', (new_ModelValue ''res.partner'' [])
         \<lparr>model_fields := [(''email'', email_field)]\<rparr>)]"

definition orders_resolved :: registry where
  "orders_resolved =
     [(''sale.order'', (new_ModelValue ''sale.order'' [])
         \<lparr>model_fields := [(''partner_id'', partner_id_field\<lparr>field_unused_percentage := 0\<rparr>),
                           (''partner_email'', partner_email_field)]\<rparr>),
      (''res.partner'', (new_ModelValue ''res.partner'' [])
         \<lparr>model_fields := [(''email'', email_field\<lparr>field_unused_percentage := 0\<rparr>)]\<rparr>)]"











text \<open>The two classes that inherit from each other, the first with a field related to
  \<open>create_uid.name\<close>, a path through a field that no class of the project declares.\<close>

definition owner_name_field :: FieldValue where
  "owner_name_field = (new_FieldValue ''owner_name'' {''a.py:4''})
     \<lparr>attr_relational := True, attr_related := Some ''create_uid.name''\<rparr>"

definition cyclic_related_files :: "(string \<times> source_file) list" where
  "cyclic_related_files =
     [(''a.py'', Parsed [new_class (Some ''a'') (InheritConstant ''b'') [owner_name_field] []]),
      (''b.py'', Parsed [new_class (Some ''b'') (InheritConstant ''a'') [] []])]"

definition cyclic_related :: registry where
  "cyclic_related =
     [(''b'', new_ModelValue ''b'' [''a'']),
      (''a'', (new_ModelValue ''a'' [''b''])\<lparr>model_fields := [(''owner_name'', owner_name_field)]\<rparr>)]"


section \<open>Scores\<close>

lemma field_scored_range:
  "0 \<le> c \<Longrightarrow> 0 \<le> field_unused_percentage f \<Longrightarrow> field_unused_percentage f \<le> 100 \<Longrightarrow>
   0 \<le> field_unused_percentage (field_scored f c)
   \<and> field_unused_percentage (field_scored f c) \<le> field_unused_percentage f"
  by (simp add: field_scored_def)

lemma method_scored_range:
  "0 \<le> c \<Longrightarrow> 0 \<le> method_unused_percentage m \<Longrightarrow> method_unused_percentage m \<le> 100 \<Longrightarrow>
   0 \<le> method_unused_percentage (method_scored m c)
   \<and> method_unused_percentage (method_scored m c) \<le> method_unused_percentage m"
  by (simp add: method_scored_def)

text \<open>
  Claim C2.  Usage recording is to leave every score non-increasing and inside 0..100.
  \<open>field_used\<close> and \<open>method_used\<close> with a confidence of at least 0 do so
  (\<open>field_used_sinks\<close>, \<open>method_used_sinks\<close>: they floor at 0), but
  \<open>reduce_certainty\<close> subtracts 25 with no floor: on a field or a method that a usage
  of confidence 100 has brought to 0 it leaves the score at -25.
\<close>

theorem C2_reduce_certainty_below_zero:
  "field_unused_percentage
     (field_reduce_certainty (field_scored (new_FieldValue ''memo'' {''note.py:5''}) 100)) = -25
   \<and> method_unused_percentage (method_reduce_certainty (method_scored go_first 100)) = -25"
  by (simp add: field_reduce_certainty_def method_reduce_certainty_def field_scored_def
      method_scored_def new_FieldValue_def go_first_def new_MethodValue_def)

section \<open>The report\<close>

lemma unused_fields_member:
  "(n, f) \<in> set (model_fields m) \<Longrightarrow> 100 \<le> field_unused_percentage f \<Longrightarrow>
   (fv_name f, field_definition_paths f) \<in> set (unused_fields m)"
  by (force simp: unused_fields_def)

lemma unused_methods_member:
  "(n, v) \<in> set (model_methods m) \<Longrightarrow> 100 \<le> method_unused_percentage v \<Longrightarrow>
   (mv_name v, method_definition_paths v) \<in> set (unused_methods m)"
  by (force simp: unused_methods_def)

lemma report_lists_when_both_kinds:
  assumes "(name, m) \<in> set reg" and "unused_fields m \<noteq> []" and "unused_methods m \<noteq> []"
  shows "(name, unused_fields m, unused_methods m) \<in> set (report reg)"
proof -
  from assms(2) have "model_fields m \<noteq> []" by (auto simp: unused_fields_def)
  with assms show ?thesis by (induction reg) auto
qed

text \<open>
  Claim C3.  Every field that still has score 100 is to be reported, whether or not
  its model also has an unused method.  \<open>report\<close> of core.py skips a model unless both
  of its unused lists are non-empty, although the lines that follow test each list
  again before printing it: for a model whose only declaration is a field that nothing
  uses, the field is in the unused list and the report has no entry.
\<close>

theorem C3_report_drops_unused_field:
  "unused_fields only_field_model = [(''memo'', {''note.py:5''})]
   \<and> unused_methods only_field_model = []
   \<and> field_score [(''sale.note'', only_field_model)] ''sale.note'' ''memo'' = Some 100
   \<and> report [(''sale.note'', only_field_model)] = []"
  by (simp add: only_field_model_def new_ModelValue_def new_FieldValue_def
      unused_fields_def unused_methods_def field_score_def)

section \<open>Merging re-declared models\<close>

lemma merge_method_other:
  "fst kv \<noteq> n \<Longrightarrow> map_of (merge_method kv ms) n = map_of ms n"
  by (simp add: merge_method_def update_conv' split: option.splits)

lemma fold_merge_method_absent:
  "n \<notin> fst ` set os \<Longrightarrow> map_of (fold merge_method os ms) n = map_of ms n"
proof (induction os arbitrary: ms)
  case Nil
  then show ?case by simp
next
  case (Cons kv os)
  then have "fst kv \<noteq> n" by auto
  with Cons show ?case by (simp add: merge_method_other)
qed

lemma fold_merge_method_common:
  assumes "distinct (map fst os)" and "map_of os n = Some theirs" and "map_of ms n = Some mine"
  shows "map_of (fold merge_method os ms) n = Some (MethodValue_ior mine theirs)"
  using assms
proof (induction os arbitrary: ms)
  case Nil
  then show ?case by simp
next
  case (Cons kv os)
  show ?case
  proof (cases "fst kv = n")
    case True
    with Cons.prems have v: "snd kv = theirs" and absent: "n \<notin> fst ` set os"
      by (cases kv; auto)+
    have "map_of (merge_method kv ms) n = Some (MethodValue_ior mine theirs)"
      using True v Cons.prems(3) by (simp add: merge_method_def update_conv')
    then show ?thesis using absent by (simp add: fold_merge_method_absent)
  next
    case False
    with Cons.prems have "distinct (map fst os)" "map_of os n = Some theirs"
      by (cases kv; auto)+
    moreover have "map_of (merge_method kv ms) n = Some mine"
      using False Cons.prems(3) by (simp add: merge_method_other)
    ultimately have "distinct (map fst os)" "map_of os n = Some theirs"
      "map_of (merge_method kv ms) n = Some mine" by auto
    then show ?thesis using Cons.IH by simp
  qed
qed

lemma ModelValue_ior_common_method:
  assumes "distinct (map fst (model_methods other))"
    and "map_of (model_methods other) n = Some theirs"
    and "map_of (model_methods self) n = Some mine"
  shows "map_of (model_methods (ModelValue_ior self other)) n = Some (MethodValue_ior mine theirs)"
  using fold_merge_method_common [OF assms] by (simp add: ModelValue_ior_def)

lemma MethodValue_ior_min_concat:
  "method_unused_percentage (MethodValue_ior a b)
     = min (method_unused_percentage a) (method_unused_percentage b)
   \<and> function_definitions (MethodValue_ior a b)
     = function_definitions a @ function_definitions b"
  by (simp add: MethodValue_ior_def)

text \<open>
  Claim C5.  A method present in both instances of a re-declared model is to end with the
  smaller score and with both bodies.  The merge of odecromancy/models.py does that
  (\<open>ModelValue_ior_common_method\<close>, \<open>MethodValue_ior_min_concat\<close>).  The merge of
  field\_value.py looks the method name up in \<open>self.fields\<close>, does not find it there,
  and overwrites the first declaration with the second: for a model declared twice with
  a method \<open>go\<close> the first body is lost.
\<close>

theorem C5_legacy_merge_drops_body:
  "map_of (model_methods (ModelValue_ior declared_first declared_second)) ''go''
     = Some (MethodValue_ior go_first go_second)
   \<and> function_definitions (MethodValue_ior go_first go_second)
     = [FunctionDef ''go'' [Name ''first''], FunctionDef ''go'' [Name ''second'']]
   \<and> legacy_ModelValue_ior declared_first declared_second = Inr declared_second
   \<and> function_definitions go_second = [FunctionDef ''go'' [Name ''second'']]"
  by (simp add: ModelValue_ior_def legacy_ModelValue_ior_def merge_method_def
      MethodValue_ior_def declared_first_def declared_second_def go_first_def go_second_def
      new_ModelValue_def new_MethodValue_def names_update_def)

section \<open>Unfolding the loops on a list\<close>

lemma method_used_child_loop_Nil:
  "method_used_child_loop reg [] mn = Some (Inr reg)"
  by (subst method_used_child_loop.simps) simp

lemma method_used_child_loop_Cons:
  "method_used_child_loop reg (c # cs) mn =
     (case map_of reg c of
        None \<Rightarrow> Some (Inl AttributeError)
      | Some child \<Rightarrow>
          Option.bind
            (method_used_child_loop (zero_method reg c child mn) (child_models child) mn)
            (\<lambda>r. case r of
                   Inl e \<Rightarrow> Some (Inl e)
                 | Inr reg' \<Rightarrow> method_used_child_loop reg' cs mn))"
  by (subst method_used_child_loop.simps) simp

lemma get_field_definition_loop_Nil:
  "get_field_definition_loop reg [] fn = Some None"
  by (subst get_field_definition_loop.simps) simp

lemma get_field_definition_loop_Cons:
  "get_field_definition_loop reg (n # ns) fn =
     (case map_of reg n of
        None \<Rightarrow> get_field_definition_loop reg ns fn
      | Some m \<Rightarrow>
          (case map_of (model_fields m) fn of
             Some f \<Rightarrow> Some (Some f)
           | None \<Rightarrow>
               Option.bind (get_field_definition_loop reg (inherited_models m) fn)
                 (\<lambda>r. case r of
                        Some f \<Rightarrow> Some (Some f)
                      | None \<Rightarrow> get_field_definition_loop reg ns fn)))"
  by (subst get_field_definition_loop.simps) simp

section \<open>Downward propagation of a method usage\<close>

lemma propagated_refl: "propagated mn reg reg"
  by (simp add: propagated_def)

lemma propagated_trans:
  "propagated mn r1 r2 \<Longrightarrow> propagated mn r2 r3 \<Longrightarrow> propagated mn r1 r3"
  by (simp add: propagated_def)

lemma transitive_child_cong:
  assumes "children_of reg' = children_of reg" and "transitive_child reg p c"
  shows "transitive_child reg' p c"
  using assms(2)
proof (induction rule: transitive_child.induct)
  case (child c p)
  then show ?case using assms(1) by (simp add: transitive_child.child)
next
  case (grandchild p c d)
  then show ?case using assms(1) by (metis transitive_child.grandchild)
qed

lemma children_of_store_method:
  "map_of reg c = Some child \<Longrightarrow> children_of (store_method reg c child mn v) = children_of reg"
  by (auto simp: children_of_def store_method_def update_conv' fun_eq_iff)

lemma method_score_store_method:
  "map_of reg c = Some child \<Longrightarrow>
   method_score (store_method reg c child mn v) n k =
     (if n = c \<and> k = mn then Some (method_unused_percentage v) else method_score reg n k)"
  by (auto simp: method_score_def store_method_def update_conv')

lemma zero_method_propagated:
  assumes "map_of reg c = Some child"
  shows "propagated mn reg (zero_method reg c child mn)"
proof (cases "map_of (model_methods child) mn")
  case None
  then show ?thesis by (simp add: zero_method_def propagated_refl)
next
  case (Some v)
  have "method_score reg c mn = Some (method_unused_percentage v)"
    using assms Some by (simp add: method_score_def)
  then show ?thesis
    using assms Some
    by (simp add: propagated_def zero_method_def children_of_store_method
        method_score_store_method)
qed

lemma zero_method_zeroes:
  assumes "map_of reg c = Some child" and "method_score reg c mn \<noteq> None"
  shows "method_score (zero_method reg c child mn) c mn = Some 0"
proof -
  from assms obtain v where "map_of (model_methods child) mn = Some v"
    by (auto simp: method_score_def)
  with assms(1) show ?thesis
    by (simp add: zero_method_def method_score_store_method)
qed

lemma transitive_child_first:
  assumes "transitive_child reg p C"
  shows "C \<in> set (children_of reg p) \<or> (\<exists>d\<in>set (children_of reg p). transitive_child reg d C)"
  using assms
proof (induction rule: transitive_child.induct)
  case (child c p)
  then show ?case by simp
next
  case (grandchild p c d)
  then show ?case
    by (metis transitive_child.child transitive_child.grandchild)
qed

lemma method_used_child_loop_zeroes:
  assumes "method_used_child_loop reg cs mn = Some r"
  shows "\<forall>reg'. r = Inr reg' \<longrightarrow>
           propagated mn reg reg'
           \<and> (\<forall>C. (C \<in> set cs \<or> (\<exists>c\<in>set cs. transitive_child reg c C)) \<longrightarrow>
                  method_score reg C mn \<noteq> None \<longrightarrow> method_score reg' C mn = Some 0)"
proof (rule method_used_child_loop.raw_induct
    [where P = "\<lambda>reg cs mn r. \<forall>reg'. r = Inr reg' \<longrightarrow>
           propagated mn reg reg'
           \<and> (\<forall>C. (C \<in> set cs \<or> (\<exists>c\<in>set cs. transitive_child reg c C)) \<longrightarrow>
                  method_score reg C mn \<noteq> None \<longrightarrow> method_score reg' C mn = Some 0)",
     OF _ assms], goal_cases)
  case (1 lp reg cs mn r)
  note IH = 1(1) and eq = 1(2)
  show ?case
  proof (cases cs)
    case Nil
    with eq show ?thesis by (auto simp: propagated_refl)
  next
    case (Cons c cs')
    show ?thesis
    proof (intro allI impI)
      fix reg'
      assume r: "r = Inr reg'"
      from eq Cons r obtain child where child: "map_of reg c = Some child"
        by (auto split: option.splits)
      let ?reg1 = "zero_method reg c child mn"
      from eq Cons r child obtain reg2 where
        first: "lp ?reg1 (child_models child) mn = Some (Inr reg2)"
        and rest: "lp reg2 cs' mn = Some (Inr reg')"
        by (auto split: Option.bind_splits sum.splits)
      have p01: "propagated mn reg ?reg1" using zero_method_propagated [OF child] .
      from IH [OF first] have p12: "propagated mn ?reg1 reg2"
        and z12: "\<And>C. (C \<in> set (child_models child) \<or> (\<exists>d\<in>set (child_models child). transitive_child ?reg1 d C))
            \<Longrightarrow> method_score ?reg1 C mn \<noteq> None \<Longrightarrow> method_score reg2 C mn = Some 0"
        by blast+
      from IH [OF rest] have p23: "propagated mn reg2 reg'"
        and z23: "\<And>C. (C \<in> set cs' \<or> (\<exists>d\<in>set cs'. transitive_child reg2 d C))
            \<Longrightarrow> method_score reg2 C mn \<noteq> None \<Longrightarrow> method_score reg' C mn = Some 0"
        by blast+
      have p02: "propagated mn reg reg2" using p01 p12 by (rule propagated_trans)
      have p03: "propagated mn reg reg'" using p02 p23 by (rule propagated_trans)
      have ch1: "children_of ?reg1 = children_of reg" using p01 by (simp add: propagated_def)
      have ch2: "children_of reg2 = children_of reg" using p02 by (simp add: propagated_def)
      have kids: "children_of reg c = child_models child" using child by (simp add: children_of_def)
      have zeroed: "method_score reg' C mn = Some 0"
        if reach: "C \<in> set cs \<or> (\<exists>d\<in>set cs. transitive_child reg d C)"
          and decl: "method_score reg C mn \<noteq> None" for C
      proof -
        have decl1: "method_score ?reg1 C mn \<noteq> None" using decl p01 by (simp add: propagated_def)
        have decl2: "method_score reg2 C mn \<noteq> None" using decl p02 by (simp add: propagated_def)
        have keep: "method_score reg2 C mn = Some 0 \<Longrightarrow> method_score reg' C mn = Some 0"
          using p23 by (simp add: propagated_def)
        consider (here) "C = c" | (below) "transitive_child reg c C"
          | (later) "C \<in> set cs' \<or> (\<exists>d\<in>set cs'. transitive_child reg d C)"
          using reach Cons by auto
        then show ?thesis
        proof cases
          case here
          then have "method_score ?reg1 C mn = Some 0"
            using zero_method_zeroes [OF child] decl by simp
          then have "method_score reg2 C mn = Some 0" using p12 by (simp add: propagated_def)
          then show ?thesis by (rule keep)
        next
          case below
          then have "C \<in> set (child_models child) \<or> (\<exists>d\<in>set (child_models child). transitive_child reg d C)"
            using transitive_child_first [of reg c C] kids by simp
          then have "C \<in> set (child_models child) \<or> (\<exists>d\<in>set (child_models child). transitive_child ?reg1 d C)"
            using transitive_child_cong [OF ch1] by blast
          then have "method_score reg2 C mn = Some 0" using z12 decl1 by blast
          then show ?thesis by (rule keep)
        next
          case later
          then have "C \<in> set cs' \<or> (\<exists>d\<in>set cs'. transitive_child reg2 d C)"
            using transitive_child_cong [OF ch2] by blast
          then show ?thesis using z23 decl2 by blast
        qed
      qed
      show "propagated mn reg reg'
           \<and> (\<forall>C. (C \<in> set cs \<or> (\<exists>c\<in>set cs. transitive_child reg c C)) \<longrightarrow>
                  method_score reg C mn \<noteq> None \<longrightarrow> method_score reg' C mn = Some 0)"
        using p03 zeroed by blast
    qed
  qed
qed

section \<open>What a field usage touches\<close>

lemma field_score_store_field:
  "map_of reg p = Some pm \<Longrightarrow>
   field_score (store_field reg p pm fn f) X g =
     (if X = p \<and> g = fn then Some (field_unused_percentage f) else field_score reg X g)"
  by (auto simp: field_score_def store_field_def update_conv')

lemma map_of_store_field_other:
  "X \<noteq> p \<Longrightarrow> map_of (store_field reg p pm fn f) X = map_of reg X"
  by (simp add: store_field_def update_conv')

lemma field_used_inherited_frame:
  "field_used_inherited reg ps fn c = Inr reg' \<Longrightarrow>
   field_score reg' X g \<noteq> field_score reg X g \<Longrightarrow>
   g = fn \<and> X \<in> set ps \<and> field_score reg X fn \<noteq> None"
proof (induction ps arbitrary: reg)
  case Nil
  then show ?case by simp
next
  case (Cons p ps)
  from Cons.prems(1) obtain pm where pm: "map_of reg p = Some pm"
    by (auto split: option.splits)
  show ?case
  proof (cases "map_of (model_fields pm) fn")
    case None
    with Cons pm show ?thesis by auto
  next
    case (Some f)
    let ?reg1 = "store_field reg p pm fn (field_scored f c)"
    have run: "field_used_inherited ?reg1 ps fn c = Inr reg'"
      using Cons.prems(1) pm Some by simp
    have sc: "\<And>Y h. field_score ?reg1 Y h =
        (if Y = p \<and> h = fn then Some (field_unused_percentage (field_scored f c)) else field_score reg Y h)"
      using pm by (simp add: field_score_store_field)
    have decl: "field_score reg p fn \<noteq> None" using pm Some by (simp add: field_score_def)
    show ?thesis
    proof (cases "field_score reg' X g = field_score ?reg1 X g")
      case True
      with Cons.prems(2) sc decl show ?thesis by (auto split: if_splits)
    next
      case False
      from Cons.IH [OF run False] sc decl show ?thesis by (auto split: if_splits)
    qed
  qed
qed

lemma field_used_inherited_untouched:
  "field_used_inherited reg ps fn c = Inr reg' \<Longrightarrow> X \<notin> set ps \<Longrightarrow> map_of reg' X = map_of reg X"
proof (induction ps arbitrary: reg)
  case Nil
  then show ?case by simp
next
  case (Cons p ps)
  then show ?case
    by (auto split: option.splits simp: map_of_store_field_other)
qed

lemma field_used_inherited_same:
  "field_used_inherited reg ps fn c = Inr reg' \<Longrightarrow>
   (\<forall>p\<in>set ps. field_score reg p fn = None) \<Longrightarrow> reg' = reg"
proof (induction ps arbitrary: reg)
  case Nil
  then show ?case by simp
next
  case (Cons p ps)
  then show ?case
    by (auto split: option.splits simp: field_score_def)
qed

text \<open>
  Claim C10.  \<open>field_used\<close> on model \<open>M\<close> changes the score of no field but \<open>fn\<close>,
  and of \<open>fn\<close> only on \<open>M\<close> itself when \<open>M\<close> declares it, otherwise only on direct
  parents of \<open>M\<close> that declare it.  When neither \<open>M\<close> nor a direct parent declares
  \<open>fn\<close> the registry is left as it was, whatever a deeper ancestor declares.
\<close>

theorem C10_field_used_stops_at_direct_parents:
  assumes "field_used reg M fn c = Inr reg'"
  shows "(field_score reg' X g \<noteq> field_score reg X g \<longrightarrow>
            g = fn \<and> (X = M \<and> field_score reg M fn \<noteq> None
                      \<or> field_score reg M fn = None \<and> X \<in> set (parents_of reg M)
                        \<and> field_score reg X fn \<noteq> None))
         \<and> (field_score reg M fn = None \<longrightarrow>
              (\<forall>p\<in>set (parents_of reg M). field_score reg p fn = None) \<longrightarrow> reg' = reg)"
proof -
  from assms obtain Mv where Mv: "map_of reg M = Some Mv"
    by (auto simp: field_used_def split: option.splits)
  show ?thesis
  proof (cases "map_of (model_fields Mv) fn")
    case None
    then have run: "field_used_inherited reg (inherited_models Mv) fn c = Inr reg'"
      using assms Mv by (simp add: field_used_def)
    have own: "field_score reg M fn = None" using Mv None by (simp add: field_score_def)
    have par: "parents_of reg M = inherited_models Mv" using Mv by (simp add: parents_of_def)
    show ?thesis
      using field_used_inherited_frame [OF run, of X g] field_used_inherited_same [OF run] own par
      by auto
  next
    case (Some f)
    then have reg': "reg' = store_field reg M Mv fn (field_scored f c)"
      using assms Mv by (simp add: field_used_def)
    have own: "field_score reg M fn \<noteq> None" using Mv Some by (simp add: field_score_def)
    show ?thesis
      using own by (auto simp: reg' field_score_store_field [OF Mv] split: if_splits)
  qed
qed

lemma field_used_untouched:
  assumes "field_used reg M fn c = Inr reg'" and "X \<noteq> M" and "X \<notin> set (parents_of reg M)"
  shows "map_of reg' X = map_of reg X"
proof -
  from assms obtain Mv where Mv: "map_of reg M = Some Mv"
    by (auto simp: field_used_def split: option.splits)
  show ?thesis
    using assms Mv field_used_inherited_untouched [of reg "inherited_models Mv" fn c reg' X]
    by (auto simp: field_used_def parents_of_def map_of_store_field_other split: option.splits)
qed

lemma zero_method_same_shape:
  assumes "map_of reg c = Some child"
  shows "same_shape reg (zero_method reg c child mn)"
proof -
  have "children_of (zero_method reg c child mn) = children_of reg"
    using zero_method_propagated [OF assms, of mn] by (simp add: propagated_def)
  moreover have "dom (map_of (zero_method reg c child mn)) = dom (map_of reg)"
    using assms
    by (auto simp: zero_method_def store_method_def update_conv' split: option.splits if_splits)
  ultimately show ?thesis by (simp add: same_shape_def)
qed

lemma store_method_same_shape:
  assumes "map_of reg c = Some child"
  shows "same_shape reg (store_method reg c child mn v)"
  using assms children_of_store_method [OF assms]
  by (auto simp: same_shape_def store_method_def update_conv' split: if_splits)

lemma method_used_child_loop_returns:
  fixes rank :: "string \<Rightarrow> nat"
  assumes ranked: "\<And>p c. c \<in> set (children_of reg0 p) \<Longrightarrow> rank c < rank p \<and> map_of reg0 c \<noteq> None"
  shows "same_shape reg0 reg \<Longrightarrow> (\<forall>c\<in>set cs. rank c < n \<and> map_of reg0 c \<noteq> None) \<Longrightarrow>
         \<exists>reg'. method_used_child_loop reg cs mn = Some (Inr reg') \<and> same_shape reg0 reg'"
proof (induction n arbitrary: reg cs rule: less_induct)
  case (less n)
  show ?case using less.prems
  proof (induction cs arbitrary: reg)
    case Nil
    then show ?case by (simp add: method_used_child_loop_Nil)
  next
    case (Cons c cs)
    from Cons.prems have "c \<in> dom (map_of reg)" by (auto simp: same_shape_def)
    then obtain child where child: "map_of reg c = Some child" by blast
    let ?reg1 = "zero_method reg c child mn"
    have sh1: "same_shape reg0 ?reg1"
      using zero_method_same_shape [OF child, of mn] Cons.prems(1) by (simp add: same_shape_def)
    have kids: "child_models child = children_of reg0 c"
      using child Cons.prems(1) by (metis children_of_def option.simps(5) same_shape_def)
    have cn: "rank c < n" using Cons.prems(2) by simp
    have below: "\<forall>d\<in>set (child_models child). rank d < rank c \<and> map_of reg0 d \<noteq> None"
      using ranked [of _ c] kids by metis
    from less.IH [OF cn sh1 below]
    obtain reg2 where r1: "method_used_child_loop ?reg1 (child_models child) mn = Some (Inr reg2)"
      and sh2: "same_shape reg0 reg2"
      by blast
    from Cons.IH [OF sh2] Cons.prems(2)
    obtain reg' where "method_used_child_loop reg2 cs mn = Some (Inr reg')"
      and "same_shape reg0 reg'"
      by auto
    with r1 child show ?case by (simp add: method_used_child_loop_Cons)
  qed
qed

lemma method_used_returns:
  fixes rank :: "string \<Rightarrow> nat"
  assumes ranked: "\<And>p c. c \<in> set (children_of reg p) \<Longrightarrow> rank c < rank p \<and> map_of reg c \<noteq> None"
    and own: "method_score reg M mn \<noteq> None"
  shows "\<exists>reg'. method_used reg M mn c = Some (Inr reg')"
proof -
  from own obtain Mv v where Mv: "map_of reg M = Some Mv" and v: "map_of (model_methods Mv) mn = Some v"
    by (auto simp: method_score_def split: option.splits)
  let ?reg1 = "store_method reg M Mv mn (method_scored v c)"
  have Mv1: "map_of ?reg1 M = Some (Mv\<lparr>model_methods := AList.update mn (method_scored v c) (model_methods Mv)\<rparr>)"
    by (simp add: store_method_def update_conv')
  have sh: "same_shape reg ?reg1" using Mv by (rule store_method_same_shape)
  have kids: "children_of reg M = child_models Mv" using Mv by (simp add: children_of_def)
  have "\<forall>d\<in>set (child_models Mv). rank d < rank M \<and> map_of reg d \<noteq> None"
    using ranked [of _ M] kids by metis
  from method_used_child_loop_returns [of reg rank ?reg1 "child_models Mv" "rank M" mn, OF ranked sh this]
  obtain reg' where "method_used_child_loop ?reg1 (child_models Mv) mn = Some (Inr reg')" by blast
  then show ?thesis
    using Mv v Mv1 by (simp add: method_used_def method_used_child_def)
qed

text \<open>
  Claim C9.  When \<open>method_used\<close> on a model that declares the method returns, every
  transitive child that declares a method of that name has score 0, whatever the
  confidence.  The call does return when the children are registered and the child
  links descend (some rank decreases along every link).  \<open>field_used\<close> has no such
  propagation: it leaves every model other than \<open>M\<close> and the direct parents of \<open>M\<close> as
  it was, children included.
\<close>

theorem C9_method_used_zeroes_descendants:
  "(method_used reg M mn c = Some (Inr reg') \<longrightarrow> method_score reg M mn \<noteq> None \<longrightarrow>
      transitive_child reg M C \<longrightarrow> method_score reg C mn \<noteq> None \<longrightarrow>
      method_score reg' C mn = Some 0)
   \<and> ((\<forall>p d. d \<in> set (children_of reg p) \<longrightarrow> (rank d :: nat) < rank p \<and> map_of reg d \<noteq> None) \<longrightarrow>
      method_score reg M mn \<noteq> None \<longrightarrow> (\<exists>r. method_used reg M mn c = Some (Inr r)))
   \<and> (field_used reg M fn cf = Inr regf \<longrightarrow> X \<noteq> M \<longrightarrow> X \<notin> set (parents_of reg M) \<longrightarrow>
      map_of regf X = map_of reg X)"
proof (intro conjI impI)
  assume run: "method_used reg M mn c = Some (Inr reg')"
    and own: "method_score reg M mn \<noteq> None"
    and tc: "transitive_child reg M C"
    and decl: "method_score reg C mn \<noteq> None"
  from own obtain Mv v where Mv: "map_of reg M = Some Mv" and v: "map_of (model_methods Mv) mn = Some v"
    by (auto simp: method_score_def split: option.splits)
  let ?reg1 = "store_method reg M Mv mn (method_scored v c)"
  have Mv1: "map_of ?reg1 M = Some (Mv\<lparr>model_methods := AList.update mn (method_scored v c) (model_methods Mv)\<rparr>)"
    by (simp add: store_method_def update_conv')
  have loop: "method_used_child_loop ?reg1 (child_models Mv) mn = Some (Inr reg')"
    using run Mv v Mv1 by (simp add: method_used_def method_used_child_def)
  have ch: "children_of ?reg1 = children_of reg" using Mv by (rule children_of_store_method)
  have kids: "children_of reg M = child_models Mv" using Mv by (simp add: children_of_def)
  have decl1: "method_score ?reg1 C mn \<noteq> None"
    using decl Mv by (simp add: method_score_store_method)
  from transitive_child_first [OF tc] kids
  have "C \<in> set (child_models Mv) \<or> (\<exists>d\<in>set (child_models Mv). transitive_child reg d C)" by simp
  then have "C \<in> set (child_models Mv) \<or> (\<exists>d\<in>set (child_models Mv). transitive_child ?reg1 d C)"
    using transitive_child_cong [OF ch] by blast
  with method_used_child_loop_zeroes [OF loop] decl1
  show "method_score reg' C mn = Some 0" by blast
next
  assume "\<forall>p d. d \<in> set (children_of reg p) \<longrightarrow> rank d < rank p \<and> map_of reg d \<noteq> None"
    and "method_score reg M mn \<noteq> None"
  then show "\<exists>r. method_used reg M mn c = Some (Inr r)"
    using method_used_returns [of reg rank M mn c] by blast
next
  assume "field_used reg M fn cf = Inr regf" "X \<noteq> M" "X \<notin> set (parents_of reg M)"
  then show "map_of regf X = map_of reg X" by (rule field_used_untouched)
qed

lemmas family_defs = family_def family_go_used_def family_priority_used_def priority_field_def
  go_first_def go_second_def new_ModelValue_def new_MethodValue_def new_FieldValue_def

lemma family_leaf_descends: "transitive_child family ''base'' ''leaf''"
proof -
  have "transitive_child family ''base'' ''mid''"
    by (rule transitive_child.child) (simp add: children_of_def family_defs)
  then show ?thesis
    by (rule transitive_child.grandchild) (simp add: children_of_def family_defs)
qed

lemma family_method_used:
  "method_used family ''base'' ''go'' 25 = Some (Inr family_go_used)"
  by (simp add: method_used_def method_used_child_def method_used_child_loop_Cons
      method_used_child_loop_Nil zero_method_def store_method_def method_scored_def family_defs)

lemma family_field_used:
  "field_used family ''mid'' ''priority'' 100 = Inr family_priority_used"
  by (simp add: field_used_def store_field_def field_scored_def family_defs)

lemma family_ranked:
  "c \<in> set (children_of family p) \<Longrightarrow> generation c < generation p \<and> map_of family c \<noteq> None"
  by (auto simp: children_of_def generation_def family_defs split: if_splits)

theorem C9_witness:
  "method_used family ''base'' ''go'' 25 = Some (Inr family_go_used)
   \<and> (\<exists>r. method_used family ''base'' ''go'' 25 = Some (Inr r))
   \<and> method_score family ''base'' ''go'' = Some 100
   \<and> transitive_child family ''base'' ''leaf''
   \<and> method_score family ''leaf'' ''go'' = Some 100
   \<and> method_score family_go_used ''base'' ''go'' = Some 75
   \<and> method_score family_go_used ''leaf'' ''go'' = Some 0
   \<and> field_used family ''mid'' ''priority'' 100 = Inr family_priority_used
   \<and> ''leaf'' \<noteq> ''mid'' \<and> ''leaf'' \<notin> set (parents_of family ''mid'')
   \<and> map_of family_priority_used ''leaf'' = map_of family ''leaf''"
proof -
  have own: "method_score family ''base'' ''go'' = Some 100"
    and leaf: "method_score family ''leaf'' ''go'' = Some 100"
    and base75: "method_score family_go_used ''base'' ''go'' = Some 75"
    by (simp_all add: method_score_def family_defs)
  have par: "''leaf'' \<notin> set (parents_of family ''mid'')"
    by (simp add: parents_of_def family_defs)
  have ranked: "\<forall>p d. d \<in> set (children_of family p) \<longrightarrow>
      generation d < generation p \<and> map_of family d \<noteq> None"
    using family_ranked by blast
  from C9_method_used_zeroes_descendants
    [where reg = family and M = "''base''" and mn = "''go''" and c = 25
      and reg' = family_go_used and C = "''leaf''" and rank = generation]
    C9_method_used_zeroes_descendants
    [where reg = family and M = "''mid''" and fn = "''priority''" and cf = 100
      and regf = family_priority_used and X = "''leaf''"]
  have "method_score family_go_used ''leaf'' ''go'' = Some 0"
    and "\<exists>r. method_used family ''base'' ''go'' 25 = Some (Inr r)"
    and "map_of family_priority_used ''leaf'' = map_of family ''leaf''"
    using family_method_used family_field_used family_leaf_descends own leaf par ranked
    by simp_all
  then show ?thesis
    using family_method_used family_field_used family_leaf_descends own leaf base75 par by simp
qed

lemma family_deep_field_used:
  "field_used family ''leaf'' ''priority'' 100 = Inr family"
  by (simp add: field_used_def family_defs)

lemma family_deep_lookup:
  "get_field_definition family ''leaf'' ''priority'' = Some (Some priority_field)"
  by (simp add: get_field_definition_def get_field_definition_loop_Cons
      get_field_definition_loop_Nil family_defs)

section \<open>Usage recording only lowers scores\<close>

lemma scores_sink_refl: "scores_sink reg reg"
  by (simp add: scores_sink_def)

lemma scores_sink_trans: "scores_sink a b \<Longrightarrow> scores_sink b c \<Longrightarrow> scores_sink a c"
  unfolding scores_sink_def by (meson order_trans)

lemma method_score_store_field:
  "map_of reg p = Some pm \<Longrightarrow> method_score (store_field reg p pm fn f) X k = method_score reg X k"
  by (auto simp: method_score_def store_field_def update_conv')

lemma field_score_store_method:
  "map_of reg p = Some pm \<Longrightarrow> field_score (store_method reg p pm mn v) X g = field_score reg X g"
  by (auto simp: field_score_def store_method_def update_conv')

lemma store_field_sinks:
  assumes "map_of reg p = Some pm" "map_of (model_fields pm) fn = Some f" "0 \<le> c"
  shows "scores_sink reg (store_field reg p pm fn (field_scored f c))"
proof -
  have "field_score reg p fn = Some (field_unused_percentage f)"
    using assms by (simp add: field_score_def)
  then show ?thesis
    using assms
    by (auto simp: scores_sink_def field_score_store_field method_score_store_field field_scored_def)
qed

lemma store_method_sinks:
  assumes "map_of reg p = Some pm" "map_of (model_methods pm) mn = Some v"
    "method_unused_percentage v' = 0 \<or> (\<exists>c\<ge>0. v' = method_scored v c)"
  shows "scores_sink reg (store_method reg p pm mn v')"
proof -
  have "method_score reg p mn = Some (method_unused_percentage v)"
    using assms by (simp add: method_score_def)
  then show ?thesis
    using assms
    by (auto simp: scores_sink_def field_score_store_method method_score_store_method method_scored_def)
qed

lemma field_used_inherited_sinks:
  "field_used_inherited reg ps fn c = Inr reg' \<Longrightarrow> 0 \<le> c \<Longrightarrow> scores_sink reg reg'"
proof (induction ps arbitrary: reg)
  case Nil
  then show ?case by (simp add: scores_sink_refl)
next
  case (Cons p ps)
  from Cons.prems(1) obtain pm where pm: "map_of reg p = Some pm"
    by (auto split: option.splits)
  show ?case
  proof (cases "map_of (model_fields pm) fn")
    case None
    with Cons pm show ?thesis by simp
  next
    case (Some f)
    with Cons.prems pm have "field_used_inherited (store_field reg p pm fn (field_scored f c)) ps fn c = Inr reg'"
      by simp
    from Cons.IH [OF this Cons.prems(2)] store_field_sinks [OF pm Some Cons.prems(2)]
    show ?thesis by (blast intro: scores_sink_trans)
  qed
qed

lemma field_used_sinks:
  assumes "field_used reg M fn c = Inr reg'" and "0 \<le> c"
  shows "scores_sink reg reg'"
proof -
  from assms obtain Mv where Mv: "map_of reg M = Some Mv"
    by (auto simp: field_used_def split: option.splits)
  show ?thesis
  proof (cases "map_of (model_fields Mv) fn")
    case None
    with assms Mv show ?thesis by (simp add: field_used_def field_used_inherited_sinks)
  next
    case (Some f)
    with assms Mv store_field_sinks [OF Mv Some assms(2)] show ?thesis
      by (simp add: field_used_def)
  qed
qed

lemma method_used_inherited_sinks:
  "method_used_inherited reg ps mn c = Inr reg' \<Longrightarrow> 0 \<le> c \<Longrightarrow> scores_sink reg reg'"
proof (induction ps arbitrary: reg)
  case Nil
  then show ?case by (simp add: scores_sink_refl)
next
  case (Cons p ps)
  from Cons.prems(1) obtain pm where pm: "map_of reg p = Some pm"
    by (auto split: option.splits)
  show ?case
  proof (cases "map_of (model_methods pm) mn")
    case None
    with Cons pm show ?thesis by simp
  next
    case (Some v)
    with Cons.prems pm have "method_used_inherited (store_method reg p pm mn (method_scored v c)) ps mn c = Inr reg'"
      by simp
    moreover have "scores_sink reg (store_method reg p pm mn (method_scored v c))"
      using store_method_sinks [OF pm Some] Cons.prems(2) by blast
    ultimately show ?thesis using Cons.IH Cons.prems(2) by (blast intro: scores_sink_trans)
  qed
qed

lemma zero_method_sinks:
  assumes "map_of reg c = Some child"
  shows "scores_sink reg (zero_method reg c child mn)"
proof (cases "map_of (model_methods child) mn")
  case None
  then show ?thesis by (simp add: zero_method_def scores_sink_refl)
next
  case (Some v)
  then show ?thesis
    using store_method_sinks [OF assms Some, of "v\<lparr>method_unused_percentage := 0\<rparr>"]
    by (simp add: zero_method_def)
qed

lemma method_used_child_loop_sinks:
  assumes "method_used_child_loop reg cs mn = Some r"
  shows "\<forall>reg'. r = Inr reg' \<longrightarrow> scores_sink reg reg'"
proof (rule method_used_child_loop.raw_induct
    [where P = "\<lambda>reg cs mn r. \<forall>reg'. r = Inr reg' \<longrightarrow> scores_sink reg reg'", OF _ assms],
    goal_cases)
  case (1 lp reg cs mn r)
  note IH = 1(1) and eq = 1(2)
  show ?case
  proof (cases cs)
    case Nil
    with eq show ?thesis by (auto simp: scores_sink_refl)
  next
    case (Cons c cs')
    show ?thesis
    proof (intro allI impI)
      fix reg' assume r: "r = Inr reg'"
      from eq Cons r obtain child where child: "map_of reg c = Some child"
        by (auto split: option.splits)
      from eq Cons r child obtain reg2 where
        first: "lp (zero_method reg c child mn) (child_models child) mn = Some (Inr reg2)"
        and rest: "lp reg2 cs' mn = Some (Inr reg')"
        by (auto split: Option.bind_splits sum.splits)
      from IH [OF first] IH [OF rest] zero_method_sinks [OF child, of mn]
      show "scores_sink reg reg'" by (blast intro: scores_sink_trans)
    qed
  qed
qed

lemma method_used_sinks:
  assumes "method_used reg M mn c = Some (Inr reg')" and "0 \<le> c"
  shows "scores_sink reg reg'"
proof -
  from assms obtain Mv where Mv: "map_of reg M = Some Mv"
    by (auto simp: method_used_def split: option.splits)
  show ?thesis
  proof (cases "map_of (model_methods Mv) mn")
    case None
    with assms Mv show ?thesis by (simp add: method_used_def method_used_inherited_sinks)
  next
    case (Some v)
    let ?reg1 = "store_method reg M Mv mn (method_scored v c)"
    have Mv1: "map_of ?reg1 M = Some (Mv\<lparr>model_methods := AList.update mn (method_scored v c) (model_methods Mv)\<rparr>)"
      by (simp add: store_method_def update_conv')
    have "method_used_child_loop ?reg1 (child_models Mv) mn = Some (Inr reg')"
      using assms Mv Some Mv1 by (simp add: method_used_def method_used_child_def)
    from method_used_child_loop_sinks [OF this]
    have "scores_sink ?reg1 reg'" by simp
    moreover have "scores_sink reg ?reg1"
      using store_method_sinks [OF Mv Some] assms(2) by blast
    ultimately show ?thesis by (blast intro: scores_sink_trans)
  qed
qed


section \<open>The usage collector\<close>

lemma get_method_definition_loop_Nil:
  "get_method_definition_loop reg [] mn = Some None"
  by (subst get_method_definition_loop.simps) simp

lemma get_method_definition_loop_Cons:
  "get_method_definition_loop reg (n # ns) mn =
     (case map_of reg n of
        None \<Rightarrow> get_method_definition_loop reg ns mn
      | Some m \<Rightarrow>
          (case map_of (model_methods m) mn of
             Some v \<Rightarrow> Some (Some v)
           | None \<Rightarrow>
               Option.bind (get_method_definition_loop reg (inherited_models m) mn)
                 (\<lambda>r. case r of
                        Some v \<Rightarrow> Some (Some v)
                      | None \<Rightarrow> get_method_definition_loop reg ns mn)))"
  by (subst get_method_definition_loop.simps) simp

lemmas sales_defs = sales_def partner_id_field_def line_ids_field_def new_ModelValue_def new_FieldValue_def

lemmas walker_defs = Let_def bind_result_def returns_def attribute_on_name_def attribute_after_value_def
  subscript_step_def handle_orm_context_change_def call_step_def lambda_arg_name_def unwind_def
  get_context_for_name_def comodel_of_def truthy_def transient_markers_def push_def pop_def
  track_field_usage_def track_method_usage_def new_collector_def
  get_field_info_def get_method_info_def get_field_definition_def get_method_definition_def
  get_field_definition_loop_Cons get_field_definition_loop_Nil
  get_method_definition_loop_Cons get_method_definition_loop_Nil

lemma grows_refl [simp]: "grows c c"
  by (simp add: grows_def)

lemma grows_trans: "grows a b \<Longrightarrow> grows b c \<Longrightarrow> grows a c"
  by (auto simp: grows_def)

lemma grows_push [simp]: "grows c (push c b)" "grows (push c b) c"
  by (simp_all add: grows_def push_def)

lemma grows_unwind [simp]: "grows c (unwind n c)"
  by (simp add: grows_def unwind_def)

lemma grows_track [simp]: "grows c (track_field_usage c m f)" "grows c (track_method_usage c m f)"
  by (auto simp: grows_def track_field_usage_def track_method_usage_def)

lemma grows_pop: "pop c = Inr c' \<Longrightarrow> grows c c'"
  by (auto simp: grows_def pop_def split: if_splits)

lemma grows_subscript_step [simp]: "grows c (subscript_step v s c)"
  by (auto simp: subscript_step_def split: node.splits const.splits)

lemma bind_result_Inr:
  "bind_result r k = Some (Inr y) \<longleftrightarrow> (\<exists>x. r = Some (Inr x) \<and> k x = Some (Inr y))"
  by (auto simp: bind_result_def split: option.splits sum.splits)

lemma returns_Inr [simp]: "returns x = Some (Inr y) \<longleftrightarrow> x = y"
  by (simp add: returns_def)

lemma grows_attribute_on_name:
  "attribute_on_name reg obj name c = Some (Inr c') \<Longrightarrow> grows c c'"
  by (auto simp: attribute_on_name_def grows_def push_def track_field_usage_def
      track_method_usage_def
      split: option.splits if_splits Option.bind_splits)

lemma grows_attribute_after_value:
  "attribute_after_value reg name c = Some (Inr c') \<Longrightarrow> grows c c'"
  by (auto simp: attribute_after_value_def Let_def grows_def push_def pop_def
      track_field_usage_def track_method_usage_def
      split: option.splits if_splits Option.bind_splits)

lemma grows_handle:
  "handle_orm_context_change reg args model m c = Some (Inr c') \<Longrightarrow> grows c c'"
  by (auto simp: handle_orm_context_change_def Let_def grows_def push_def track_field_usage_def
      split: option.splits if_splits Option.bind_splits list.splits node.splits const.splits)

lemma grows_call_step:
  "call_step reg args m c = Some (Inr c') \<Longrightarrow> grows c c'"
  by (auto simp: call_step_def Let_def bind_result_Inr grows_def pop_def track_method_usage_def
      split: Option.bind_splits if_splits dest!: grows_handle [unfolded grows_def])

lemma visit_grows:
  "(\<forall>c'. visit reg n c = Some (Inr c') \<longrightarrow> grows c c')"
  "(\<forall>c'. visit_list reg ns c = Some (Inr c') \<longrightarrow> grows c c')"
proof (induction reg n c and reg ns c rule: visit_visit_list.induct)
  case (1 reg n c)
  then show ?case by simp
next
  case (2 reg k c)
  then show ?case by simp
next
  case (3 reg "value" name c)
  show ?case
  proof (intro allI impI)
    fix c' assume run: "visit reg (Attribute value name) c = Some (Inr c')"
    then obtain c1 where first: "(case value of
          Name obj_name \<Rightarrow> attribute_on_name reg obj_name name c
        | Attribute v a \<Rightarrow> bind_result (visit reg value c) (attribute_after_value reg name)
        | Call f args kws \<Rightarrow> bind_result (visit reg value c) (attribute_after_value reg name)
        | _ \<Rightarrow> returns c) = Some (Inr c1)" and second: "visit reg value c1 = Some (Inr c')"
      by (auto simp: bind_result_Inr)
    have "grows c c1"
    proof (cases "value")
      case (Name x)
      with first show ?thesis by (simp add: grows_attribute_on_name)
    next
      case (Attribute v a)
      with first obtain c0 where "visit reg value c = Some (Inr c0)" "attribute_after_value reg name c0 = Some (Inr c1)"
        by (auto simp: bind_result_Inr)
      with 3(1) [OF Attribute] show ?thesis
        by (blast intro: grows_trans grows_attribute_after_value)
    next
      case (Call f args kws)
      with first obtain c0 where "visit reg value c = Some (Inr c0)" "attribute_after_value reg name c0 = Some (Inr c1)"
        by (auto simp: bind_result_Inr)
      with 3(2) [OF Call] show ?thesis
        by (blast intro: grows_trans grows_attribute_after_value)
    qed (use first in auto)
    moreover have "grows c1 c'" using 3(3) second by blast
    ultimately show "grows c c'" by (rule grows_trans)
  qed
next
  case (4 reg "value" slice c)
  show ?case
  proof (intro allI impI)
    fix c' assume "visit reg (Subscript value slice) c = Some (Inr c')"
    then obtain c1 where "visit reg value (subscript_step value slice c) = Some (Inr c1)"
      "visit reg slice c1 = Some (Inr c')"
      by (auto simp: bind_result_Inr)
    with 4 have "grows (subscript_step value slice c) c1" "grows c1 c'" by blast+
    then show "grows c c'" by (blast intro: grows_trans grows_subscript_step)
  qed
next
  case (5 reg posonlyargs args defaults body c)
  show ?case
  proof (intro allI impI)
    fix c' assume run: "visit reg (Lambda posonlyargs args defaults body) c = Some (Inr c')"
    let ?generic = "bind_result (visit_list reg defaults c) (\<lambda>c1. visit reg body c1) = Some (Inr c')"
    consider (generic) "?generic"
        "model_context_stack c = [] \<or> lambda_arg_name posonlyargs args = None
          \<or> lambda_arg_name posonlyargs args = Some []"
      | (bound) a where "model_context_stack c \<noteq> []" "lambda_arg_name posonlyargs args = Some a" "a \<noteq> []"
        "bind_result (visit reg body (push c (fst (last (model_context_stack c)), a)))
                 (\<lambda>c1. Some (pop c1)) = Some (Inr c')"
      using run by (auto split: if_splits option.splits)
    then show "grows c c'"
    proof cases
      case generic
      from generic(1) obtain c1 where "visit_list reg defaults c = Some (Inr c1)" "visit reg body c1 = Some (Inr c')"
        by (auto simp: bind_result_Inr)
      with generic(2) 5(1,2,3,4,6,7) have "grows c c1 \<and> grows c1 c'"
        by (cases "model_context_stack c = []") auto
      then show ?thesis by (blast intro: grows_trans)
    next
      case bound
      from bound(4) obtain c1 where "visit reg body (push c (fst (last (model_context_stack c)), a)) = Some (Inr c1)"
        "pop c1 = Inr c'"
        by (auto simp: bind_result_Inr)
      with 5(5) [OF bound(1,2,3)] have "grows (push c (fst (last (model_context_stack c)), a)) c1" "grows c1 c'"
        by (auto dest: grows_pop)
      then show ?thesis by (blast intro: grows_trans grows_push)
    qed
  qed
next
  case (6 reg func args kws c)
  show ?case
  proof (intro allI impI)
    fix c' assume run: "visit reg (Call func args kws) c = Some (Inr c')"
    then obtain c1 c2 c3 where first: "(case func of
          Attribute value method_name \<Rightarrow>
            bind_result (visit reg value c) (call_step reg args method_name)
        | _ \<Rightarrow> returns c) = Some (Inr c1)"
      and rest: "visit reg func c1 = Some (Inr c2)" "visit_list reg args c2 = Some (Inr c3)"
        "visit_list reg kws c3 = Some (Inr c')"
      by (auto simp: bind_result_Inr)
    have "grows c c1"
    proof (cases func)
      case (Attribute v m)
      with first obtain c0 where "visit reg v c = Some (Inr c0)" "call_step reg args m c0 = Some (Inr c1)"
        by (auto simp: bind_result_Inr)
      with 6(1) [OF Attribute] show ?thesis
        by (blast intro: grows_trans grows_call_step)
    qed (use first in auto)
    moreover have "grows c1 c2" "grows c2 c3" "grows c3 c'" using 6(2,3,4) rest by blast+
    ultimately show "grows c c'" by (blast intro: grows_trans)
  qed
next
  case (7 reg elt generators c)
  show ?case
  proof (intro allI impI)
    fix c' assume "visit reg (ListComp elt generators) c = Some (Inr c')"
    then obtain c1 c2 where "visit reg elt c = Some (Inr c1)" "visit_list reg generators c1 = Some (Inr c2)"
      "c' = unwind (length (model_context_stack c)) c2"
      by (auto simp: bind_result_Inr)
    with 7 have "grows c c1" "grows c1 c2" "grows c2 c'" by auto
    then show "grows c c'" by (blast intro: grows_trans)
  qed
next
  case (8 reg elt generators c)
  show ?case
  proof (intro allI impI)
    fix c' assume "visit reg (SetComp elt generators) c = Some (Inr c')"
    then obtain c1 c2 where "visit reg elt c = Some (Inr c1)" "visit_list reg generators c1 = Some (Inr c2)"
      "c' = unwind (length (model_context_stack c)) c2"
      by (auto simp: bind_result_Inr)
    with 8 have "grows c c1" "grows c1 c2" "grows c2 c'" by auto
    then show "grows c c'" by (blast intro: grows_trans)
  qed
next
  case (9 reg elt generators c)
  show ?case
  proof (intro allI impI)
    fix c' assume "visit reg (GeneratorExp elt generators) c = Some (Inr c')"
    then obtain c1 c2 where "visit reg elt c = Some (Inr c1)" "visit_list reg generators c1 = Some (Inr c2)"
      "c' = unwind (length (model_context_stack c)) c2"
      by (auto simp: bind_result_Inr)
    with 9 have "grows c c1" "grows c1 c2" "grows c2 c'" by auto
    then show "grows c c'" by (blast intro: grows_trans)
  qed
next
  case (10 reg target iter ifs c)
  show ?case
  proof (intro allI impI)
    fix c' assume "visit reg (Comprehension target iter ifs) c = Some (Inr c')"
    then obtain c1 where it: "visit reg iter c = Some (Inr c1)"
      and rest: "(if model_context_stack c1 = [] then returns c1
              else (case target of
                      Name target_name \<Rightarrow>
                        visit_list reg ifs
                          (push c1 (fst (last (model_context_stack c1)), target_name))
                    | _ \<Rightarrow> returns c1)) = Some (Inr c')"
      by (auto simp: bind_result_Inr)
    have "grows c c1" using 10(1) it by blast
    moreover have "grows c1 c'"
    proof (cases "model_context_stack c1 = []")
      case True
      with rest show ?thesis by simp
    next
      case False
      show ?thesis
      proof (cases target)
        case (Name t)
        with rest False have "visit_list reg ifs (push c1 (fst (last (model_context_stack c1)), t)) = Some (Inr c')"
          by simp
        with 10(2) [OF False Name] have "grows (push c1 (fst (last (model_context_stack c1)), t)) c'" by blast
        then show ?thesis by (blast intro: grows_trans grows_push)
      qed (use rest False in auto)
    qed
    ultimately show "grows c c'" by (rule grows_trans)
  qed
next
  case (11 reg children c)
  then show ?case by simp
next
  case (12 reg c)
  then show ?case by simp
next
  case (13 reg n ns c)
  show ?case
  proof (intro allI impI)
    fix c' assume "visit_list reg (n # ns) c = Some (Inr c')"
    then obtain c1 where "visit reg n c = Some (Inr c1)" "visit_list reg ns c1 = Some (Inr c')"
      by (auto simp: bind_result_Inr)
    with 13 have "grows c c1" "grows c1 c'" by blast+
    then show "grows c c'" by (rule grows_trans)
  qed
qed

lemma call_step_records:
  assumes "call_step reg (Constant (Str s) # rest) m c = Some (Inr c')"
    and "m \<in> {''filtered'', ''filtered_domain'', ''mapped''}"
    and "model_context_stack c \<noteq> []"
  shows "(fst (last (model_context_stack c)), s) \<in> used_fields_by_model c'"
  using assms
  by (auto simp: call_step_def Let_def bind_result_Inr handle_orm_context_change_def
      pop_def push_def track_field_usage_def track_method_usage_def
      split: Option.bind_splits if_splits option.splits)

subsection \<open>The walk returns\<close>

lemma get_field_definition_loop_returns:
  assumes "parents_descend rank reg"
  shows "(\<forall>x\<in>set ns. rank x < n) \<Longrightarrow> \<exists>r. get_field_definition_loop reg ns fn = Some r"
proof (induction n arbitrary: ns rule: less_induct)
  case (less n)
  show ?case using less.prems
  proof (induction ns)
    case Nil
    then show ?case by (simp add: get_field_definition_loop_Nil)
  next
    case (Cons x xs)
    from Cons obtain r2 where rest: "get_field_definition_loop reg xs fn = Some r2" by auto
    show ?case
    proof (cases "map_of reg x")
      case None
      with rest show ?thesis by (simp add: get_field_definition_loop_Cons)
    next
      case (Some m)
      have "\<forall>p\<in>set (inherited_models m). rank p < rank x"
        using assms Some by (auto simp: parents_descend_def parents_of_def split: option.splits)
      moreover have "rank x < n" using Cons.prems by simp
      ultimately obtain r1 where "get_field_definition_loop reg (inherited_models m) fn = Some r1"
        using less.IH [of "rank x" "inherited_models m"] by blast
      with Some rest show ?thesis
        by (simp add: get_field_definition_loop_Cons split: option.splits)
    qed
  qed
qed

lemma get_method_definition_loop_returns:
  assumes "parents_descend rank reg"
  shows "(\<forall>x\<in>set ns. rank x < n) \<Longrightarrow> \<exists>r. get_method_definition_loop reg ns mn = Some r"
proof (induction n arbitrary: ns rule: less_induct)
  case (less n)
  show ?case using less.prems
  proof (induction ns)
    case Nil
    then show ?case by (simp add: get_method_definition_loop_Nil)
  next
    case (Cons x xs)
    from Cons obtain r2 where rest: "get_method_definition_loop reg xs mn = Some r2" by auto
    show ?case
    proof (cases "map_of reg x")
      case None
      with rest show ?thesis by (simp add: get_method_definition_loop_Cons)
    next
      case (Some m)
      have "\<forall>p\<in>set (inherited_models m). rank p < rank x"
        using assms Some by (auto simp: parents_descend_def parents_of_def split: option.splits)
      moreover have "rank x < n" using Cons.prems by simp
      ultimately obtain r1 where "get_method_definition_loop reg (inherited_models m) mn = Some r1"
        using less.IH [of "rank x" "inherited_models m"] by blast
      with Some rest show ?thesis
        by (simp add: get_method_definition_loop_Cons split: option.splits)
    qed
  qed
qed

lemma get_field_info_returns:
  assumes "parents_descend rank reg"
  shows "\<exists>r. get_field_info reg M fn = Some r"
  using get_field_definition_loop_returns [OF assms, of "[M]" "Suc (rank M)" fn]
  by (simp add: get_field_info_def get_field_definition_def)

lemma get_method_info_returns:
  assumes "parents_descend rank reg"
  shows "\<exists>r. get_method_info reg M mn = Some r"
  using get_method_definition_loop_returns [OF assms, of "[M]" "Suc (rank M)" mn]
  by (simp add: get_method_info_def get_method_definition_def)

lemma bind_field_info_returns:
  assumes "parents_descend rank reg" and "\<And>f. \<exists>y. k f = Some y"
  shows "\<exists>y. Option.bind (get_field_info reg M fn) k = Some y"
  using get_field_info_returns [OF assms(1), of M fn] assms(2) by auto

lemma bind_method_info_returns:
  assumes "parents_descend rank reg" and "\<And>v. \<exists>y. k v = Some y"
  shows "\<exists>y. Option.bind (get_method_info reg M mn) k = Some y"
  using get_method_info_returns [OF assms(1), of M mn] assms(2) by auto

lemma bind_result_returns:
  "\<exists>y. r = Some y \<Longrightarrow> (\<And>x. \<exists>y. k x = Some y) \<Longrightarrow> \<exists>y. bind_result r k = Some y"
  by (auto simp: bind_result_def split: option.splits sum.splits)

lemma bind_result_Inl:
  "bind_result r k = Some (Inl e) \<longleftrightarrow>
     r = Some (Inl e) \<or> (\<exists>x. r = Some (Inr x) \<and> k x = Some (Inl e))"
  by (auto simp: bind_result_def split: option.splits sum.splits)

lemma attribute_on_name_returns:
  assumes "parents_descend rank reg"
  shows "\<exists>y. attribute_on_name reg obj name c = Some y"
  unfolding attribute_on_name_def returns_def
  by (auto split: option.splits
      intro!: bind_field_info_returns [OF assms] bind_method_info_returns [OF assms])

lemma attribute_after_value_returns:
  assumes "parents_descend rank reg"
  shows "\<exists>y. attribute_after_value reg name c = Some y"
  unfolding attribute_after_value_def returns_def Let_def
  by (auto split: option.splits
      intro!: bind_field_info_returns [OF assms] bind_method_info_returns [OF assms])

lemma handle_orm_context_change_returns:
  assumes "parents_descend rank reg"
  shows "\<exists>y. handle_orm_context_change reg args M m c = Some y"
  unfolding handle_orm_context_change_def returns_def Let_def
  by (auto split: option.splits list.splits node.splits const.splits
      intro!: bind_field_info_returns [OF assms])

lemma call_step_returns:
  assumes "parents_descend rank reg"
  shows "\<exists>y. call_step reg args m c = Some y"
  unfolding call_step_def Let_def
  by (auto simp: returns_def handle_orm_context_change_returns [OF assms]
      intro!: bind_method_info_returns [OF assms] bind_result_returns)

lemma visit_returns:
  "parents_descend rank reg \<Longrightarrow> \<exists>y. visit reg n c = Some y"
  "parents_descend rank reg \<Longrightarrow> \<exists>y. visit_list reg ns c = Some y"
proof (induction reg n c and reg ns c rule: visit_visit_list.induct)
  case (3 reg "value" name c)
  have "\<exists>y. (case value of
          Name obj_name \<Rightarrow> attribute_on_name reg obj_name name c
        | Attribute v a \<Rightarrow> bind_result (visit reg value c) (attribute_after_value reg name)
        | Call f args kws \<Rightarrow> bind_result (visit reg value c) (attribute_after_value reg name)
        | _ \<Rightarrow> returns c) = Some y"
    using 3 attribute_on_name_returns [OF 3(4)] attribute_after_value_returns [OF 3(4)]
    by (cases "value") (simp_all add: returns_def bind_result_returns)
  then show ?case using 3(3) [OF 3(4)] by (simp add: bind_result_returns)
next
  case (5 reg posonlyargs args defaults body c)
  note ok = 5(8)
  show ?case
  proof (cases "model_context_stack c = []")
    case True
    with 5(1,2) ok show ?thesis by (simp add: bind_result_returns)
  next
    case False
    show ?thesis
    proof (cases "lambda_arg_name posonlyargs args")
      case None
      with False 5(3,4) ok show ?thesis by (simp add: bind_result_returns)
    next
      case (Some a)
      show ?thesis
      proof (cases "a = []")
        case True
        with False Some 5(6,7) ok show ?thesis by (simp add: bind_result_returns)
      next
        case False2: False
        with False Some 5(5) ok show ?thesis by (simp add: bind_result_returns)
      qed
    qed
  qed
next
  case (6 reg func args kws c)
  note ok = 6(5)
  have "\<exists>y. (case func of
          Attribute value method_name \<Rightarrow>
            bind_result (visit reg value c) (call_step reg args method_name)
        | _ \<Rightarrow> returns c) = Some y"
    using 6(1) ok call_step_returns [OF ok]
    by (cases func) (simp_all add: returns_def bind_result_returns)
  then show ?case using 6(2,3,4) ok by (simp add: bind_result_returns)
next
  case (10 reg target iter ifs c)
  note ok = 10(3)
  have "\<And>c1. \<exists>y. (if model_context_stack c1 = [] then returns c1
              else (case target of
                      Name target_name \<Rightarrow>
                        visit_list reg ifs
                          (push c1 (fst (last (model_context_stack c1)), target_name))
                    | _ \<Rightarrow> returns c1)) = Some y"
    using 10(2) ok by (cases target) (simp_all add: returns_def)
  then show ?case using 10(1) ok by (simp add: bind_result_returns)
qed (simp_all add: returns_def bind_result_returns)


lemma attribute_on_name_no_error: "attribute_on_name reg obj name c \<noteq> Some (Inl e)"
  by (auto simp: attribute_on_name_def returns_def split: option.splits Option.bind_splits)

lemma attribute_after_value_no_error: "attribute_after_value reg name c \<noteq> Some (Inl e)"
  by (auto simp: attribute_after_value_def Let_def returns_def pop_def track_field_usage_def
      split: option.splits Option.bind_splits if_splits)

lemma handle_orm_context_change_no_error:
  "handle_orm_context_change reg args M m c \<noteq> Some (Inl e)"
  by (auto simp: handle_orm_context_change_def Let_def returns_def
      split: option.splits Option.bind_splits list.splits node.splits const.splits)

lemma call_step_no_error: "call_step reg args m c \<noteq> Some (Inl e)"
  by (auto simp: call_step_def Let_def returns_def pop_def bind_result_Inl
      handle_orm_context_change_no_error split: Option.bind_splits if_splits)

lemma visit_no_error:
  "lambda_free n \<Longrightarrow> visit reg n c \<noteq> Some (Inl e)"
  "list_all lambda_free ns \<Longrightarrow> visit_list reg ns c \<noteq> Some (Inl e)"
proof (induction reg n c and reg ns c rule: visit_visit_list.induct)
  case (3 reg "value" name c)
  then show ?case
    by (cases "value")
       (auto simp: bind_result_Inl returns_def attribute_on_name_no_error
          attribute_after_value_no_error)
next
  case (6 reg func args kws c)
  then show ?case
    by (cases func) (auto simp: bind_result_Inl returns_def call_step_no_error)
next
  case (10 reg target iter ifs c)
  then show ?case
    by (cases target) (auto simp: bind_result_Inl returns_def split: if_splits)
qed (auto simp: bind_result_Inl returns_def)

text \<open>
  Claim C1.  A call \<open>obj.m(arg0, ...)\<close> with \<open>m\<close> one of mapped, filtered and
  filtered\_domain and \<open>arg0\<close> a string literal.  When no model is its own ancestor
  the visit of the call returns; it returns without an exception when the call holds
  no lambda; and when it returns without an exception it has visited \<open>obj\<close>, and if
  the binding stack is not empty after that visit, the result holds \<open>arg0\<close> as a used
  field of the model on top of that stack.
\<close>

theorem C1_bulk_operation_records_field:
  assumes acyclic: "parents_descend rank reg"
    and m: "m \<in> {''filtered'', ''filtered_domain'', ''mapped''}"
  shows "\<exists>r. visit reg (Call (Attribute obj m) (Constant (Str s) # rest) kws) c = Some r
           \<and> (lambda_free obj \<and> list_all lambda_free rest \<and> list_all lambda_free kws
                \<longrightarrow> (\<exists>c'. r = Inr c'))
           \<and> (\<forall>c'. r = Inr c' \<longrightarrow>
                (\<exists>c1. visit reg obj c = Some (Inr c1)
                   \<and> (model_context_stack c1 \<noteq> [] \<longrightarrow>
                        (fst (last (model_context_stack c1)), s) \<in> used_fields_by_model c')))"
proof -
  let ?call = "Call (Attribute obj m) (Constant (Str s) # rest) kws"
  from visit_returns(1) [OF acyclic] obtain r where r: "visit reg ?call c = Some r" by blast
  have normal: "\<exists>c'. r = Inr c'"
    if "lambda_free obj \<and> list_all lambda_free rest \<and> list_all lambda_free kws"
  proof (cases r)
    case (Inl e)
    from that have "lambda_free ?call" by simp
    from visit_no_error(1) [OF this, of reg c e] r Inl show ?thesis by simp
  next
    case (Inr c')
    then show ?thesis by blast
  qed
  have recorded: "\<exists>c1. visit reg obj c = Some (Inr c1)
                   \<and> (model_context_stack c1 \<noteq> [] \<longrightarrow>
                        (fst (last (model_context_stack c1)), s) \<in> used_fields_by_model c')"
    if "r = Inr c'" for c'
  proof -
    from r that have run: "visit reg ?call c = Some (Inr c')" by simp
    then obtain c1 c2 c3 c4 where obj: "visit reg obj c = Some (Inr c1)"
      and step: "call_step reg (Constant (Str s) # rest) m c1 = Some (Inr c2)"
      and func: "visit reg (Attribute obj m) c2 = Some (Inr c3)"
      and args: "visit_list reg (Constant (Str s) # rest) c3 = Some (Inr c4)"
      and kws: "visit_list reg kws c4 = Some (Inr c')"
      by (auto simp: bind_result_Inr)
    have "grows c2 c3" "grows c3 c4" "grows c4 c'"
      using visit_grows func args kws by blast+
    then have sub: "used_fields_by_model c2 \<subseteq> used_fields_by_model c'"
      by (auto simp: grows_def)
    have "model_context_stack c1 \<noteq> [] \<Longrightarrow>
        (fst (last (model_context_stack c1)), s) \<in> used_fields_by_model c'"
      using call_step_records [OF step m] sub by blast
    with obj show ?thesis by blast
  qed
  from r normal recorded show ?thesis by blast
qed

lemma sales_mapped_amount: "visit sales mapped_amount start = Some (Inr mapped_amount_result)"
  by (simp add: walker_defs sales_defs mapped_amount_def mapped_amount_result_def start_def
      insert_commute)

lemma sales_line_ids: "visit sales (Attribute (Name ''self'') ''line_ids'') start
  = Some (Inr (push (track_field_usage start ''sale.order'' ''line_ids'') (''sale.order.line'', ''self.line_ids'')))"
  by (simp add: walker_defs sales_defs start_def)

lemma sales_parents_descend: "parents_descend (\<lambda>n. 0) sales"
  by (simp add: parents_descend_def parents_of_def sales_defs)

theorem C1_witness:
  "parents_descend (\<lambda>n. 0) sales
   \<and> lambda_free (Attribute (Name ''self'') ''line_ids'')
   \<and> visit sales (Attribute (Name ''self'') ''line_ids'') start
       = Some (Inr (push (track_field_usage start ''sale.order'' ''line_ids'')
                      (''sale.order.line'', ''self.line_ids'')))
   \<and> visit sales mapped_amount start = Some (Inr mapped_amount_result)
   \<and> (''sale.order.line'', ''amount'') \<in> used_fields_by_model mapped_amount_result
   \<and> (''sale.order'', ''line_ids'') \<in> used_fields_by_model mapped_amount_result"
proof -
  have run: "visit sales (Call (Attribute (Attribute (Name ''self'') ''line_ids'') ''mapped'')
       (Constant (Str ''amount'') # []) []) start = Some (Inr mapped_amount_result)"
    using sales_mapped_amount by (simp add: mapped_amount_def)
  have top: "fst (last (model_context_stack (push (track_field_usage start ''sale.order'' ''line_ids'')
      (''sale.order.line'', ''self.line_ids'')))) = ''sale.order.line''"
    by (simp add: push_def track_field_usage_def)
  from C1_bulk_operation_records_field [OF sales_parents_descend, of "''mapped''"
      "Attribute (Name ''self'') ''line_ids''" "''amount''" "[]" "[]" start]
  have "(''sale.order.line'', ''amount'') \<in> used_fields_by_model mapped_amount_result"
    using run sales_line_ids top by (simp add: push_def)
  then show ?thesis
    using sales_mapped_amount sales_line_ids sales_parents_descend
    by (simp add: mapped_amount_result_def)
qed

text \<open>
  Claim C1 as stated fails twice.  For \<open>search\<close> the handler's guard leaves the call
  out and the string literal is not recorded.  And the binding that the handler pushes
  for \<open>mapped\<close> is gone before the chained access is looked at: \<open>visit_Call\<close> pops a
  marker on top of the stack right after the handler.  In
  \<open>self.mapped('line_ids').amount\<close> the field \<open>amount\<close> of the lines is not recorded,
  and in \<open>self.mapped('line_ids').mapped('amount')\<close> it is recorded on the order.
\<close>

theorem C1_search_and_chained_access:
  "visit sales (Call (Attribute (Name ''self'') ''search'') [Constant (Str ''partner_id'')] []) start
     = Some (Inr start)
   \<and> used_fields_by_model start = {}
   \<and> model_context_stack start = [(''sale.order'', ''self'')]
   \<and> field_score sales ''sale.order.line'' ''amount'' = Some 100
   \<and> comodel_of line_ids_field = Some ''sale.order.line''
   \<and> visit sales
        (Attribute (Call (Attribute (Name ''self'') ''mapped'') [Constant (Str ''line_ids'')] [])
           ''amount'') start
      = Some (Inr \<lparr>used_fields_by_model = {(''sale.order'', ''line_ids'')},
                   used_methods_by_model = {},
                   model_context_stack = [(''sale.order'', ''self'')]\<rparr>)
   \<and> visit sales
        (Call (Attribute (Call (Attribute (Name ''self'') ''mapped'') [Constant (Str ''line_ids'')] [])
                 ''mapped'')
           [Constant (Str ''amount'')] []) start
      = Some (Inr \<lparr>used_fields_by_model = {(''sale.order'', ''line_ids''), (''sale.order'', ''amount'')},
                   used_methods_by_model = {},
                   model_context_stack = [(''sale.order'', ''self'')]\<rparr>)"
  by (simp add: walker_defs sales_defs start_def field_score_def insert_commute)

lemma legacy_handler_mapped_only:
  "method_name \<noteq> ''mapped'' \<Longrightarrow>
   legacy_handle_orm_context_change reg args model_name method_name c = returns c"
  by (simp add: legacy_handle_orm_context_change_def)

text \<open>
  Claim C7.  A lambda is meant to leave the binding stack as it found it.  After
  \<open>lambda l: l.partner_id\<close> the single \<open>pop\<close> has removed the relation binding that
  the body pushed, and the binding of \<open>l\<close> stays; after \<open>lambda: self.partner_id\<close>
  (no parameter, \<open>generic_visit\<close>) the relation binding stays.
\<close>

theorem C7_lambda_leaves_bindings:
  "model_context_stack start = [(''sale.order'', ''self'')]
   \<and> visit sales (Lambda [] [''l''] [] (Attribute (Name ''l'') ''partner_id'')) start
     = Some (Inr \<lparr>used_fields_by_model = {(''sale.order'', ''partner_id'')},
                  used_methods_by_model = {},
                  model_context_stack = [(''sale.order'', ''self''), (''sale.order'', ''l'')]\<rparr>)
   \<and> visit sales (Lambda [] [] [] (Attribute (Name ''self'') ''partner_id'')) start
     = Some (Inr \<lparr>used_fields_by_model = {(''sale.order'', ''partner_id'')},
                  used_methods_by_model = {},
                  model_context_stack =
                    [(''sale.order'', ''self''), (''res.partner'', ''self.partner_id'')]\<rparr>)"
  by (simp add: walker_defs sales_defs start_def)

text \<open>A field of the grandparent read on the grandchild: the collector attributes it to the
  grandchild, and the usage recorded there changes nothing.\<close>

theorem C10_witness:
  "field_used family ''leaf'' ''priority'' 100 = Inr family
   \<and> field_score family ''leaf'' ''priority'' = None
   \<and> parents_of family ''leaf'' = [''mid'']
   \<and> field_score family ''mid'' ''priority'' = None
   \<and> get_field_info family ''leaf'' ''priority'' = Some (Some priority_field)
   \<and> visit family (Attribute (Name ''self'') ''priority'') (new_collector ''leaf'' [])
       = Some (Inr \<lparr>used_fields_by_model = {(''leaf'', ''priority'')},
                    used_methods_by_model = {},
                    model_context_stack = [(''leaf'', ''self'')]\<rparr>)
   \<and> field_score family ''base'' ''priority'' = Some 100
   \<and> field_used family ''mid'' ''priority'' 100 = Inr family_priority_used
   \<and> field_score family_priority_used ''base'' ''priority'' = Some 0
   \<and> ''base'' \<in> set (parents_of family ''mid'')"
proof -
  have scores: "field_score family ''leaf'' ''priority'' = None"
    "field_score family ''mid'' ''priority'' = None"
    "field_score family ''base'' ''priority'' = Some 100"
    "field_score family_priority_used ''base'' ''priority'' = Some 0"
    by (simp_all add: field_score_def family_defs)
  have par: "parents_of family ''leaf'' = [''mid'']"
    by (simp add: parents_of_def family_defs)
  from C10_field_used_stops_at_direct_parents [OF family_field_used, of "''base''" "''priority''"]
  have "''base'' \<in> set (parents_of family ''mid'')"
    using scores by simp
  moreover
  from C10_field_used_stops_at_direct_parents [OF family_deep_field_used]
  have "family = family" using scores par by simp
  moreover
  have "visit family (Attribute (Name ''self'') ''priority'') (new_collector ''leaf'' [])
       = Some (Inr \<lparr>used_fields_by_model = {(''leaf'', ''priority'')},
                    used_methods_by_model = {},
                    model_context_stack = [(''leaf'', ''self'')]\<rparr>)"
    by (simp add: walker_defs family_defs)
  ultimately show ?thesis
    using family_deep_field_used family_deep_lookup family_field_used scores par
    by (simp add: get_field_info_def)
qed

section \<open>The declaration pass and relationship resolution\<close>

lemmas pass_defs = Let_def new_class_def new_analyzer_def initialize_definitions_map_def
  initialize_model_def inherited_model_names_def fields_by_name_def methods_by_name_def
  py_ior_def ModelValue_ior_def names_update_def new_ModelValue_def new_FieldValue_def
  link_children_def add_child_def

lemmas order_defs = orders_declared_def orders_resolved_def order_files_def partner_id_field_def
  partner_email_field_def email_field_def

lemma iterates_small:
  assumes "iterates it"
  shows "names_order it [] = []" "names_order it [n] = [n]"
    "fields_order it [] = []" "fields_order it [f] = [f]"
    "methods_order it [] = []" "methods_order it [v] = [v]"
proof -
  from assms have names: "\<And>ns. distinct (names_order it ns) \<and> set (names_order it ns) = set ns"
    and fields: "\<And>fs. mset (fields_order it fs) = mset fs"
    and methods: "\<And>ms. mset (methods_order it ms) = mset ms"
    by (simp_all add: iterates_def)
  from names [of "[]"] show "names_order it [] = []" by simp
  from names [of "[n]"] show "names_order it [n] = [n]"
    by (cases "names_order it [n]") (auto simp: insert_eq_iff dest: subset_singletonD)
  from fields [of "[]"] show "fields_order it [] = []" by simp
  from fields [of "[f]"] show "fields_order it [f] = [f]" by (simp add: mset_single_iff_right)
  from methods [of "[]"] show "methods_order it [] = []" by simp
  from methods [of "[v]"] show "methods_order it [v] = [v]" by (simp add: mset_single_iff_right)
qed

lemma insertion_order_iterates: "iterates insertion_order"
  by (simp add: iterates_def insertion_order_def)

lemma orders_are_declared:
  "map_sum id (\<lambda>a. as_registry (definitions_map a))
     (declaration_pass insertion_order new_analyzer order_files) = Inr (Some orders_declared)"
  by (simp add: pass_defs order_defs insertion_order_def)

lemma related_path_walk_Nil:
  "related_path_walk reg current_model [] = Some (Inr (reg, current_model))"
  by (subst related_path_walk.simps) simp

lemma related_path_walk_Cons:
  "related_path_walk reg current_model (part # rest) =
          (case current_model of
             None \<Rightarrow> Some (Inr (reg, None))
           | Some current \<Rightarrow>
               (case field_used reg current part 100 of
                  Inl e \<Rightarrow> Some (Inl e)
                | Inr reg1 \<Rightarrow>
                    Option.bind (get_field_definition reg1 current part) (\<lambda>field_def.
                      (case field_def of
                         None \<Rightarrow> Some (Inr (reg1, None))
                       | Some fd \<Rightarrow>
                           (case comodel_of fd of
                              Some comodel \<Rightarrow>
                                related_path_walk reg1 (registered reg1 (Some comodel)) rest
                            | None \<Rightarrow>
                                (case related_of fd of
                                   Some path \<Rightarrow>
                                     Option.bind
                                       (related_path_walk reg1 (Some current) (split_dot path))
                                       (\<lambda>r. case r of
                                              Inl e \<Rightarrow> Some (Inl e)
                                            | Inr (reg2, sub_comodel_name) \<Rightarrow>
                                                related_path_walk reg2
                                                  (registered reg2 sub_comodel_name) rest)
                                 | None \<Rightarrow> Some (Inr (reg1, None))))))))"
  by (subst related_path_walk.simps) simp

lemmas resolve_defs = Let_def fill_definitions_map_def link_children_def add_child_def all_fields_def
  inherit_comodel_def resolve_related_def get_comodel_from_related_path_def set_comodel_def
  related_path_walk_Cons related_path_walk_Nil registered_def related_of_def
  comodel_of_def truthy_def field_used_def store_field_def field_scored_def
  get_field_definition_def get_field_definition_loop_Cons get_field_definition_loop_Nil
  bind_result_def returns_def new_ModelValue_def new_FieldValue_def

lemma orders_fill: "fill_definitions_map orders_declared = Some (Inr orders_resolved)"
  by (simp add: resolve_defs order_defs)




lemma comodel_of_scored [simp]: "comodel_of (field_scored f c) = comodel_of f"
  by (simp add: comodel_of_def field_scored_def)

lemma related_of_scored [simp]: "related_of (field_scored f c) = related_of f"
  by (simp add: related_of_def field_scored_def)







section \<open>Errors in the declaration pass\<close>

lemma models_only_Nil [simp]: "models_only []"
  by (simp add: models_only_def)











text \<open>The model with one unused field is what the declaration pass and the relationship
  resolution make of a class with one field.\<close>

lemma only_field_model_is_declared:
  assumes "iterates it"
  shows "map_sum id (\<lambda>a. map_option fill_definitions_map (as_registry (definitions_map a)))
     (declaration_pass it new_analyzer
        [(''note.py'', Parsed [new_class (Some ''sale.note'') NoInherit
                                [new_FieldValue ''memo'' {''note.py:5''}] []])])
   = Inr (Some (Some (Inr [(''sale.note'', only_field_model)])))"
  by (simp add: pass_defs iterates_small [OF assms] fill_definitions_map_def all_fields_def
      inherit_comodel_def resolve_related_def related_of_def comodel_of_def truthy_def
      bind_result_def returns_def only_field_model_def)

section \<open>Inheritance cycles\<close>

text \<open>The cyclic registry is what the declaration pass and the linking of children
  make of two classes that inherit from each other.\<close>

lemma cyclic_registry_is_declared:
  assumes "iterates it"
  shows "map_sum id (\<lambda>a. map_option link_children (as_registry (definitions_map a)))
     (declaration_pass it new_analyzer cyclic_files) = Inr (Some cyclic_registry)"
  by (simp add: pass_defs iterates_small [OF assms] cyclic_files_def cyclic_registry_def)

lemma cyclic_related_is_declared:
  assumes "iterates it"
  shows "map_sum id (\<lambda>a. as_registry (definitions_map a))
     (declaration_pass it new_analyzer cyclic_related_files) = Inr (Some cyclic_related)"
  by (simp add: pass_defs iterates_small [OF assms] cyclic_related_files_def cyclic_related_def
      owner_name_field_def)

lemma two_cycle_lookup_never_returns:
  assumes a: "map_of reg ''a'' = Some ma" "map_of (model_fields ma) fn = None" "inherited_models ma = [''b'']"
    and b: "map_of reg ''b'' = Some mb" "map_of (model_fields mb) fn = None" "inherited_models mb = [''a'']"
  shows "get_field_definition_loop reg (''a'' # ns) fn = None"
proof (cases "get_field_definition_loop reg (''a'' # ns) fn")
  case None
  then show ?thesis .
next
  case (Some y)
  have "\<not> (r = reg \<and> f = fn \<and> (\<exists>ns. names = ''a'' # ns \<or> names = ''b'' # ns))"
    if "get_field_definition_loop r names f = Some y" for r names f y
  proof (rule get_field_definition_loop.raw_induct
      [where P = "\<lambda>r names f y. \<not> (r = reg \<and> f = fn
          \<and> (\<exists>ns. names = ''a'' # ns \<or> names = ''b'' # ns))", OF _ that], goal_cases)
    case (1 lp r names f y)
    note IH = 1(1) and eq = 1(2)
    show ?case
    proof
      assume h: "r = reg \<and> f = fn \<and> (\<exists>ns. names = ''a'' # ns \<or> names = ''b'' # ns)"
      then obtain ns where ns: "names = ''a'' # ns \<or> names = ''b'' # ns" by blast
      from ns show False
      proof
        assume "names = ''a'' # ns"
        with h eq a obtain z where "lp reg [''b''] fn = Some z"
          by (auto split: Option.bind_splits)
        with IH show False by blast
      next
        assume "names = ''b'' # ns"
        with h eq b obtain z where "lp reg [''a''] fn = Some z"
          by (auto split: Option.bind_splits)
        with IH show False by blast
      qed
    qed
  qed
  from this [OF Some] show ?thesis by blast
qed

lemma cyclic_propagation_never_returns:
  assumes "method_used_child_loop reg cs mn = Some y"
  shows "\<not> (map (\<lambda>kv. (fst kv, child_models (snd kv))) reg = [(''b'', [''a'']), (''a'', [''b''])]
            \<and> (\<exists>ns. cs = ''a'' # ns \<or> cs = ''b'' # ns))"
proof (rule method_used_child_loop.raw_induct
    [where P = "\<lambda>reg cs mn y.
       \<not> (map (\<lambda>kv. (fst kv, child_models (snd kv))) reg = [(''b'', [''a'']), (''a'', [''b''])]
            \<and> (\<exists>ns. cs = ''a'' # ns \<or> cs = ''b'' # ns))", OF _ assms], goal_cases)
  case (1 lp reg cs mn y)
  note IH = 1(1) and eq = 1(2)
  show ?case
  proof
    assume h: "map (\<lambda>kv. (fst kv, child_models (snd kv))) reg = [(''b'', [''a'']), (''a'', [''b''])]
            \<and> (\<exists>ns. cs = ''a'' # ns \<or> cs = ''b'' # ns)"
    then obtain ma mb where reg: "reg = [(''b'', mb), (''a'', ma)]"
      "child_models ma = [''b'']" "child_models mb = [''a'']"
      by (cases reg) (auto simp: map_eq_Cons_conv)
    from h obtain ns where ns: "cs = ''a'' # ns \<or> cs = ''b'' # ns" by blast
    have shape: "\<And>c child. map_of reg c = Some child \<Longrightarrow>
        map (\<lambda>kv. (fst kv, child_models (snd kv))) (zero_method reg c child mn) = [(''b'', [''a'']), (''a'', [''b''])]"
      using reg by (auto simp: zero_method_def store_method_def split: option.splits if_splits)
    from ns show False
    proof
      assume "cs = ''a'' # ns"
      with reg eq obtain r where "lp (zero_method reg ''a'' ma mn) [''b''] mn = Some r"
        by (auto split: Option.bind_splits)
      moreover have "map_of reg ''a'' = Some ma" using reg by simp
      ultimately show False using IH shape by blast
    next
      assume "cs = ''b'' # ns"
      with reg eq obtain r where "lp (zero_method reg ''b'' mb mn) [''a''] mn = Some r"
        by (auto split: Option.bind_splits)
      moreover have "map_of reg ''b'' = Some mb" using reg by simp
      ultimately show False using IH shape by blast
    qed
  qed
qed

lemma cyclic_related_never_resolves: "fill_definitions_map cyclic_related = None"
proof -
  let ?linked = "link_children cyclic_related"
  have linked: "?linked =
     [(''b'', (new_ModelValue ''b'' [''a''])\<lparr>child_models := [''a'']\<rparr>),
      (''a'', (new_ModelValue ''a'' [''b''])
         \<lparr>child_models := [''b''], model_fields := [(''owner_name'', owner_name_field)]\<rparr>)]"
    by (simp add: link_children_def add_child_def cyclic_related_def new_ModelValue_def)
  have look: "get_field_definition ?linked ''a'' ''create_uid'' = None"
    unfolding get_field_definition_def
    by (rule two_cycle_lookup_never_returns [where
          ma = "(new_ModelValue ''a'' [''b''])
             \<lparr>child_models := [''b''], model_fields := [(''owner_name'', owner_name_field)]\<rparr>"
          and mb = "(new_ModelValue ''b'' [''a''])\<lparr>child_models := [''a'']\<rparr>"])
       (simp_all add: linked new_ModelValue_def)
  have used: "field_used ?linked ''a'' ''create_uid'' 100 = Inr ?linked"
    by (simp add: linked field_used_def new_ModelValue_def)
  have inherit: "inherit_comodel ?linked ''a'' ''owner_name'' = returns ?linked"
    by (simp add: linked inherit_comodel_def bind_result_def returns_def comodel_of_def truthy_def
        get_field_definition_def get_field_definition_loop_Cons owner_name_field_def
        new_ModelValue_def new_FieldValue_def)
  have walk: "related_path_walk ?linked (Some ''a'') [''create_uid'', ''name''] = None"
    by (simp add: related_path_walk_Cons [of ?linked] used look)
  have resolve: "resolve_related ?linked ''a'' ''owner_name'' = None"
    using walk
    by (simp add: linked resolve_related_def get_comodel_from_related_path_def bind_result_def
        related_of_def comodel_of_def truthy_def owner_name_field_def new_ModelValue_def
        new_FieldValue_def)
  have fields: "all_fields ?linked = [(''a'', ''owner_name'')]"
    by (simp add: linked all_fields_def new_ModelValue_def)
  show ?thesis
    by (simp add: fill_definitions_map_def Let_def fields inherit resolve bind_result_def returns_def)
qed

text \<open>
  Claim C4.  Two models that name each other as parent.  The lookup of a field name that
  neither declares goes from one to the other for ever; so does the collector on
  \<open>self.zz\<close>, the downward propagation of a method usage, and the whole relationship
  resolution when a related path starts with such a name.  None of these calls returns.
\<close>

theorem C4_cycle_never_returns:
  "get_field_definition cyclic_registry ''a'' ''zz'' = None
   \<and> visit cyclic_registry (Attribute (Name ''self'') ''zz'') (new_collector ''a'' []) = None
   \<and> method_used_child cyclic_registry ''a'' ''go'' = None
   \<and> fill_definitions_map cyclic_related = None"
proof (intro conjI)
  show look: "get_field_definition cyclic_registry ''a'' ''zz'' = None"
    unfolding get_field_definition_def
    by (rule two_cycle_lookup_never_returns [where
          ma = "(new_ModelValue ''a'' [''b''])\<lparr>child_models := [''b'']\<rparr>"
          and mb = "(new_ModelValue ''b'' [''a''])\<lparr>child_models := [''a'']\<rparr>"])
       (simp_all add: cyclic_registry_def new_ModelValue_def)
  show "visit cyclic_registry (Attribute (Name ''self'') ''zz'') (new_collector ''a'' []) = None"
    by (simp add: attribute_on_name_def get_context_for_name_def new_collector_def
        get_field_info_def look bind_result_def)
  show "method_used_child cyclic_registry ''a'' ''go'' = None"
  proof (cases "method_used_child_loop cyclic_registry [''b''] ''go''")
    case None
    then show ?thesis by (simp add: method_used_child_def cyclic_registry_def new_ModelValue_def)
  next
    case (Some y)
    from cyclic_propagation_never_returns [OF Some] show ?thesis
      by (simp add: cyclic_registry_def new_ModelValue_def)
  qed
  show "fill_definitions_map cyclic_related = None"
    by (rule cyclic_related_never_resolves)
qed

end
